theory Spec2Isabelle
  imports Complex_Main "HOL-Library.Word" "HOL-Library.AList"
begin

section \<open>JavaScript strings\<close>

text \<open>
  A JavaScript string is a sequence of 16-bit code units; a chunk read from the upstream
  socket is a sequence of bytes. String literals of the source are ASCII and written
  with \<open>lit\<close>.
\<close>

type_synonym byte = "8 word"
type_synonym jchar = "16 word"
type_synonym jstring = "jchar list"

definition lit :: "string \<Rightarrow> jstring" where
  "lit s = map of_char s"

definition LF :: jchar where
  "LF = 0x0A"

definition CR :: jchar where
  "CR = 0x0D"

text \<open>\<open>s.startsWith(p)\<close> and \<open>s.includes(p)\<close>.\<close>

fun startsWith :: "'a list \<Rightarrow> 'a list \<Rightarrow> bool" where
  "startsWith s [] = True"
| "startsWith [] (p # ps) = False"
| "startsWith (c # cs) (p # ps) = (c = p \<and> startsWith cs ps)"

fun includes_str :: "'a list \<Rightarrow> 'a list \<Rightarrow> bool" where
  "includes_str [] p = (p = [])"
| "includes_str (c # cs) p = (startsWith (c # cs) p \<or> includes_str cs p)"

text \<open>
  \<open>s.split(sep)\<close> for a one-character separator: the pieces between the separators, in
  order; always at least one piece.
\<close>

fun split_on :: "'a \<Rightarrow> 'a list \<Rightarrow> 'a list list" where
  "split_on sep [] = [[]]"
| "split_on sep (c # cs) =
     (if c = sep then [] # split_on sep cs
      else (case split_on sep cs of
              [] \<Rightarrow> [[c]]
            | l # ls \<Rightarrow> (c # l) # ls))"

text \<open>
  The characters matched by \<open>\s\<close> in a regular expression, which are also the ones
  removed by \<open>trim()\<close>: white space and line terminators.
\<close>

definition is_space :: "jchar \<Rightarrow> bool" where
  "is_space c \<longleftrightarrow>
     c = 0x09 \<or> c = 0x0A \<or> c = 0x0B \<or> c = 0x0C \<or> c = 0x0D \<or> c = 0x20 \<or>
     c = 0xA0 \<or> c = 0x1680 \<or> (0x2000 \<le> c \<and> c \<le> 0x200A) \<or>
     c = 0x2028 \<or> c = 0x2029 \<or> c = 0x202F \<or> c = 0x205F \<or> c = 0x3000 \<or>
     c = 0xFEFF"

definition trim :: "jstring \<Rightarrow> jstring" where
  "trim s = rev (dropWhile is_space (rev (dropWhile is_space s)))"

text \<open>\<open>rawLine.replace(/\r$/, '')\<close>: one carriage return at the very end is removed.\<close>

definition strip_cr :: "jstring \<Rightarrow> jstring" where
  "strip_cr l = (if l \<noteq> [] \<and> last l = CR then butlast l else l)"

text \<open>\<open>line.replace(/^data:\s*/, '')\<close>.\<close>

definition strip_data :: "jstring \<Rightarrow> jstring" where
  "strip_data l =
     (if startsWith l (lit ''data:'') then dropWhile is_space (drop 5 l) else l)"

text \<open>
  \<open>chunk.toString()\<close> on a Buffer: UTF-8 decoding in which every ill-formed maximal
  subpart becomes one U+FFFD, and a code point above U+FFFF becomes a surrogate pair.
\<close>

definition is_cont :: "byte \<Rightarrow> bool" where
  "is_cont b \<longleftrightarrow> 0x80 \<le> b \<and> b \<le> 0xBF"

definition cont_bits :: "byte \<Rightarrow> nat" where
  "cont_bits b = unat b - 0x80"

definition code_units :: "nat \<Rightarrow> jstring" where
  "code_units cp =
     (if cp < 0x10000 then [of_nat cp]
      else [of_nat (0xD800 + (cp - 0x10000) div 0x400),
            of_nat (0xDC00 + (cp - 0x10000) mod 0x400)])"

definition second_ok :: "byte \<Rightarrow> byte \<Rightarrow> bool" where
  "second_ok b c \<longleftrightarrow>
     (if b = 0xE0 then 0xA0 \<le> c \<and> c \<le> 0xBF
      else if b = 0xED then 0x80 \<le> c \<and> c \<le> 0x9F
      else if b = 0xF0 then 0x90 \<le> c \<and> c \<le> 0xBF
      else if b = 0xF4 then 0x80 \<le> c \<and> c \<le> 0x8F
      else is_cont c)"

fun toString :: "byte list \<Rightarrow> jstring" where
  "toString [] = []"
| "toString (b # bs) =
     (if b < 0x80 then ucast b # toString bs
      else if 0xC2 \<le> b \<and> b \<le> 0xDF then
        (case bs of
           [] \<Rightarrow> [0xFFFD]
         | c # cs \<Rightarrow>
             if is_cont c
             then code_units ((unat b - 0xC0) * 0x40 + cont_bits c) @ toString cs
             else 0xFFFD # toString bs)
      else if 0xE0 \<le> b \<and> b \<le> 0xEF then
        (case bs of
           [] \<Rightarrow> [0xFFFD]
         | c # cs \<Rightarrow>
             if second_ok b c then
               (case cs of
                  [] \<Rightarrow> [0xFFFD]
                | d # ds \<Rightarrow>
                    if is_cont d
                    then code_units (((unat b - 0xE0) * 0x40 + cont_bits c) * 0x40
                                     + cont_bits d) @ toString ds
                    else 0xFFFD # toString cs)
             else 0xFFFD # toString bs)
      else if 0xF0 \<le> b \<and> b \<le> 0xF4 then
        (case bs of
           [] \<Rightarrow> [0xFFFD]
         | c # cs \<Rightarrow>
             if second_ok b c then
               (case cs of
                  [] \<Rightarrow> [0xFFFD]
                | d # ds \<Rightarrow>
                    if is_cont d then
                      (case ds of
                         [] \<Rightarrow> [0xFFFD]
                       | e # es \<Rightarrow>
                           if is_cont e
                           then code_units ((((unat b - 0xF0) * 0x40 + cont_bits c) * 0x40
                                             + cont_bits d) * 0x40 + cont_bits e)
                                @ toString es
                           else 0xFFFD # toString ds)
                    else 0xFFFD # toString cs)
             else 0xFFFD # toString bs)
      else 0xFFFD # toString bs)"

section \<open>JSON values\<close>

text \<open>
  The values \<open>JSON.parse\<close> produces; a number is its value as a rational. A value
  that may be \<open>undefined\<close> is a \<open>json option\<close>, with \<open>None\<close> for \<open>undefined\<close>. An
  object keeps its properties in order.
\<close>

datatype json =
    JNull
  | JBool bool
  | JNum rat
  | JStr jstring
  | JArr "json list"
  | JObj "(jstring \<times> json) list"

text \<open>What an \<open>if\<close>, \<open>!\<close>, \<open>&&\<close> or \<open>||\<close> takes for true.\<close>

fun truthy :: "json option \<Rightarrow> bool" where
  "truthy None = False"
| "truthy (Some JNull) = False"
| "truthy (Some (JBool b)) = b"
| "truthy (Some (JNum n)) = (n \<noteq> 0)"
| "truthy (Some (JStr s)) = (s \<noteq> [])"
| "truthy (Some (JArr xs)) = True"
| "truthy (Some (JObj kvs)) = True"

text \<open>\<open>v || d\<close>.\<close>

definition or_else :: "json option \<Rightarrow> json \<Rightarrow> json" where
  "or_else v d = (case v of None \<Rightarrow> d | Some x \<Rightarrow> if truthy (Some x) then x else d)"

text \<open>The value of \<open>v\<close> where \<open>if (v)\<close> holds.\<close>

definition if_truthy :: "json option \<Rightarrow> json option" where
  "if_truthy v = (if truthy v then v else None)"

text \<open>
  \<open>x.k\<close> on a value that is neither \<open>null\<close> nor \<open>undefined\<close>, for the property names
  the source reads (\<open>choices\<close>, \<open>delta\<close>, \<open>content\<close>, \<open>reasoning_content\<close>, \<open>message\<close>,
  \<open>role\<close>, \<open>index\<close>, \<open>finish_reason\<close>, \<open>usage\<close>, \<open>id\<close>, \<open>object\<close>): none of them is
  inherited, so only an object that has the property itself gives a value.
\<close>

fun field :: "jstring \<Rightarrow> json \<Rightarrow> json option" where
  "field k (JObj kvs) = map_of kvs k"
| "field k v = None"

text \<open>\<open>x?.k\<close>: \<open>undefined\<close> when \<open>x\<close> is \<open>null\<close> or \<open>undefined\<close>.\<close>

fun opt_field :: "jstring \<Rightarrow> json option \<Rightarrow> json option" where
  "opt_field k None = None"
| "opt_field k (Some JNull) = None"
| "opt_field k (Some v) = field k v"

text \<open>
  \<open>x?.[0]\<close>: the first element of an array, the first character of a string, the
  property \<open>"0"\<close> of an object.
\<close>

fun opt_first :: "json option \<Rightarrow> json option" where
  "opt_first (Some (JArr (x # xs))) = Some x"
| "opt_first (Some (JStr (c # cs))) = Some (JStr [c])"
| "opt_first (Some (JObj kvs)) = map_of kvs (lit ''0'')"
| "opt_first v = None"

text \<open>
  An object literal whose property values may be \<open>undefined\<close>, as \<open>JSON.stringify\<close>
  writes it: a property whose value is \<open>undefined\<close> is left out.
\<close>

definition obj :: "(string \<times> json option) list \<Rightarrow> json" where
  "obj kvs = JObj (List.map_filter (\<lambda>(k, v). map_option (Pair (lit k)) v) kvs)"

text \<open>
  What the runtime and its library do and the source relies on:
  \<^item> \<open>JSON_parse\<close>: \<open>JSON.parse\<close>, \<open>None\<close> where it throws;
  \<^item> \<open>plus_coerce\<close>: the operator \<open>+\<close> when an operand is not a string (coercion to a
    primitive, then concatenation or numeric addition), \<open>None\<close> where it throws;
  \<^item> \<open>toLowerCase\<close>: \<open>String.prototype.toLowerCase\<close>;
  \<^item> \<open>type_error_message\<close>: the message of a \<open>TypeError\<close> the engine throws.
\<close>

record platform =
  JSON_parse :: "jstring \<Rightarrow> json option"
  plus_coerce :: "json \<Rightarrow> json \<Rightarrow> json option"
  toLowerCase :: "jstring \<Rightarrow> jstring"
  type_error_message :: jstring

text \<open>\<open>a + b\<close>: two strings are concatenated.\<close>

fun js_plus :: "platform \<Rightarrow> json \<Rightarrow> json \<Rightarrow> json option" where
  "js_plus pf (JStr a) (JStr b) = Some (JStr (a @ b))"
| "js_plus pf a b = plus_coerce pf a b"

section \<open>Configuration\<close>

definition SHOW_REASONING :: bool where
  "SHOW_REASONING = False"

definition ENABLE_THINKING_MODE :: bool where
  "ENABLE_THINKING_MODE = True"

definition MODEL_MAPPING :: "(jstring \<times> jstring) list" where
  "MODEL_MAPPING =
     [(lit ''gpt-3.5-turbo'', lit ''nvidia/llama-3.1-nemotron-ultra-253b-v1''),
      (lit ''gpt-4'', lit ''qwen/qwen3-coder-480b-a35b-instruct''),
      (lit ''gpt-4-turbo'', lit ''moonshotai/kimi-k2-instruct-0905''),
      (lit ''gpt-4o'', lit ''deepseek-ai/deepseek-v3.1''),
      (lit ''claude-3-opus'', lit ''z-ai/glm4.7''),
      (lit ''claude-3-sonnet'', lit ''z-ai/glm5''),
      (lit ''gemini-pro'', lit ''qwen/qwen3-next-80b-a3b-thinking'')]"

definition THINKING_CAPABLE_MODELS :: "jstring list" where
  "THINKING_CAPABLE_MODELS =
     [lit ''nvidia/llama-3.1-nemotron-ultra-253b-v1'',
      lit ''qwen/qwen3-235b-a22b'',
      lit ''qwen/qwen3-next-80b-a3b-thinking'',
      lit ''qwen/qwen3-coder-480b-a35b-instruct'']"

section \<open>Model resolution\<close>

text \<open>
  \<open>MODEL_MAPPING\<close> is an object literal, so \<open>MODEL_MAPPING[model]\<close> also finds the
  members every object inherits from \<open>Object.prototype\<close>; each of them is a function or
  an object, hence true in a condition. The resolved model is therefore either a name or
  such a member.
\<close>

datatype nim_model = Named jstring | Inherited jstring

definition object_prototype_members :: "jstring list" where
  "object_prototype_members =
     map lit [''constructor'', ''__defineGetter__'', ''__defineSetter__'',
              ''hasOwnProperty'', ''__lookupGetter__'', ''__lookupSetter__'',
              ''isPrototypeOf'', ''propertyIsEnumerable'', ''toString'', ''valueOf'',
              ''__proto__'', ''toLocaleString'']"

definition MODEL_MAPPING_get :: "jstring \<Rightarrow> nim_model option" where
  "MODEL_MAPPING_get model =
     (case map_of MODEL_MAPPING model of
        Some v \<Rightarrow> Some (Named v)
      | None \<Rightarrow>
          if model \<in> set object_prototype_members then Some (Inherited model) else None)"

text \<open>\<open>!nimModel\<close>: \<open>undefined\<close>, \<open>null\<close> and the empty string.\<close>

fun unresolved :: "nim_model option \<Rightarrow> bool" where
  "unresolved None = True"
| "unresolved (Some (Named n)) = (n = [])"
| "unresolved (Some (Inherited k)) = False"

text \<open>
  \<open>verifiedModels\<close>: a \<open>Map\<close> from the requested name to the name itself or to \<open>null\<close>
  (\<open>Some None\<close>).
\<close>

type_synonym verified = "jstring \<rightharpoonup> jstring option"

text \<open>
  The probe answers with a status, or fails without one (\<open>None\<close>: no connection, time
  out). With \<open>validateStatus: (s) => s < 500\<close> a status from 500 on is thrown as well and
  ends in the same \<open>catch\<close>.
\<close>

definition probe_verifies :: "nat option \<Rightarrow> bool" where
  "probe_verifies r =
     (case r of
        None \<Rightarrow> False
      | Some status \<Rightarrow> status < 500 \<and> 200 \<le> status \<and> status < 300)"

definition fallback :: "platform \<Rightarrow> jstring \<Rightarrow> jstring" where
  "fallback pf model =
     (let ml = toLowerCase pf model in
      if includes_str ml (lit ''gpt-4'') \<or> includes_str ml (lit ''claude-opus'')
         \<or> includes_str ml (lit ''405b'')
      then lit ''meta/llama-3.1-405b-instruct''
      else if includes_str ml (lit ''claude'') \<or> includes_str ml (lit ''gemini'')
              \<or> includes_str ml (lit ''70b'')
      then lit ''meta/llama-3.1-70b-instruct''
      else lit ''meta/llama-3.1-8b-instruct'')"

text \<open>
  The resolution block of the handler: the resolved model, the cache afterwards and the
  names probed, in order.
\<close>

definition resolve_model ::
  "platform \<Rightarrow> (jstring \<Rightarrow> nat option) \<Rightarrow> verified \<Rightarrow> jstring
     \<Rightarrow> nim_model \<times> verified \<times> jstring list" where
  "resolve_model pf probe verifiedModels model =
     (let nimModel = MODEL_MAPPING_get model in
      if unresolved nimModel then
        (let (nimModel, verifiedModels, probes) =
           (case verifiedModels model of
              Some v \<Rightarrow> (map_option Named v, verifiedModels, [])
            | None \<Rightarrow>
                if probe_verifies (probe model)
                then (Some (Named model), verifiedModels(model \<mapsto> Some model), [model])
                else (None, verifiedModels(model \<mapsto> None), [model]))
         in if unresolved nimModel
            then (Named (fallback pf model), verifiedModels, probes)
            else (the nimModel, verifiedModels, probes))
      else (the nimModel, verifiedModels, []))"

text \<open>
  The probe is awaited: between the test \<open>verifiedModels.has\<close> and the write
  \<open>verifiedModels.set\<close> the event loop handles other requests and other probes.
  \<open>resolve_model\<close> above is the block with its probe settling before anything else
  happens. Its two halves, each of which runs without interruption:
  \<^item> \<open>resolve_start\<close>, up to the \<open>await\<close>: the resolved model where the alias table or
    the cache gives one, or \<open>None\<close>: a probe is sent and the request waits;
  \<^item> \<open>resolve_settle\<close>, from the \<open>await\<close> on, for the answer of the probe: the entry is
    written, whatever the cache holds by then, and the model resolved.
\<close>

definition resolve_start :: "platform \<Rightarrow> verified \<Rightarrow> jstring \<Rightarrow> nim_model option" where
  "resolve_start pf verifiedModels model =
     (let nimModel = MODEL_MAPPING_get model in
      if unresolved nimModel then
        (case verifiedModels model of
           Some v \<Rightarrow>
             (let nimModel = map_option Named v
              in Some (if unresolved nimModel then Named (fallback pf model)
                       else the nimModel))
         | None \<Rightarrow> None)
      else Some (the nimModel))"

definition probe_entry :: "jstring \<Rightarrow> nat option \<Rightarrow> jstring option" where
  "probe_entry model answer = (if probe_verifies answer then Some model else None)"

definition resolve_settle ::
  "platform \<Rightarrow> verified \<Rightarrow> jstring \<Rightarrow> nat option \<Rightarrow> nim_model \<times> verified" where
  "resolve_settle pf verifiedModels model answer =
     (let nimModel = (if probe_verifies answer then Some (Named model) else None);
          verifiedModels = verifiedModels(model \<mapsto> probe_entry model answer)
      in (if unresolved nimModel then Named (fallback pf model) else the nimModel,
          verifiedModels))"

text \<open>
  The event loop as far as resolution goes. Its state is the cache and the names whose
  probes are in flight, one entry for each waiting request. A request for a name
  arrives, or a probe for a name settles with its answer (a probe that nobody sent does
  not settle); a step resolves a name or sends a probe.
\<close>

datatype event = Request jstring | Probe_settles jstring "nat option"

datatype outcome = Resolved jstring nim_model | Probe_sent jstring

fun loop_step ::
  "platform \<Rightarrow> verified \<times> jstring list \<Rightarrow> event
     \<Rightarrow> (verified \<times> jstring list) \<times> outcome list" where
  "loop_step pf (verifiedModels, waiting) (Request model) =
     (case resolve_start pf verifiedModels model of
        Some nimModel \<Rightarrow> ((verifiedModels, waiting), [Resolved model nimModel])
      | None \<Rightarrow> ((verifiedModels, model # waiting), [Probe_sent model]))"
| "loop_step pf (verifiedModels, waiting) (Probe_settles model answer) =
     (if model \<in> set waiting then
        (let (nimModel, verifiedModels) = resolve_settle pf verifiedModels model answer
         in ((verifiedModels, remove1 model waiting), [Resolved model nimModel]))
      else ((verifiedModels, waiting), []))"

fun run_events ::
  "platform \<Rightarrow> verified \<times> jstring list \<Rightarrow> event list
     \<Rightarrow> (verified \<times> jstring list) \<times> outcome list" where
  "run_events pf s [] = (s, [])"
| "run_events pf s (e # es) =
     (let (s, outcomes) = loop_step pf s e;
          (s, more) = run_events pf s es
      in (s, outcomes @ more))"

text \<open>Every request that waits for a probe asked for a name the alias table does not resolve.\<close>

definition waiting_unmapped :: "verified \<times> jstring list \<Rightarrow> bool" where
  "waiting_unmapped s \<longleftrightarrow> (\<forall>n\<in>set (snd s). unresolved (MODEL_MAPPING_get n))"

definition thinking_capable :: "nim_model \<Rightarrow> bool" where
  "thinking_capable m =
     (case m of Named n \<Rightarrow> n \<in> set THINKING_CAPABLE_MODELS | Inherited k \<Rightarrow> False)"

section \<open>The streaming transformer\<close>

text \<open>
  What the handler writes to the caller: \<open>Write_data j\<close> is
  \<open>res.write(`data: ${JSON.stringify(j)}\n\n`)\<close> and \<open>Write_done\<close> is
  \<open>res.write('data: [DONE]\n\n')\<close>.
\<close>

datatype out = Write_data json | Write_done

record stream_state =
  buffer :: jstring
  reasoningStarted :: bool

definition open_marker :: jstring where
  "open_marker = lit ''<think>'' @ [LF]"

definition close_marker :: jstring where
  "close_marker = lit ''</think>'' @ [LF, LF]"

text \<open>The closing event written at the termination signal and at the end of the stream.\<close>

definition done_close :: json where
  "done_close =
     obj [(''choices'', Some (JArr [obj
       [(''index'', Some (JNum 0)),
        (''delta'', Some (obj [(''content'', Some (JStr close_marker))]))]]))]"

text \<open>The closing event written before the first content of an event \<open>data\<close>.\<close>

definition delta_close :: "json \<Rightarrow> json" where
  "delta_close data =
     obj [(''id'', field (lit ''id'') data),
          (''object'', field (lit ''object'') data),
          (''choices'', Some (JArr [obj
            [(''index'', Some (JNum 0)),
             (''delta'', Some (obj [(''content'', Some (JStr close_marker))])),
             (''finish_reason'', Some JNull)]]))]"

text \<open>
  Assignments through \<open>data.choices[0].delta\<close>. The value at a property or at index 0
  is replaced where it is; an assignment to a property of a string, number or boolean
  does nothing, and a named property set on an array is not written by
  \<open>JSON.stringify\<close>.
\<close>

fun update_field :: "jstring \<Rightarrow> (json \<Rightarrow> json) \<Rightarrow> json \<Rightarrow> json" where
  "update_field k f (JObj kvs) =
     (case map_of kvs k of
        None \<Rightarrow> JObj kvs
      | Some x \<Rightarrow> JObj (AList.update k (f x) kvs))"
| "update_field k f v = v"

fun update_first :: "(json \<Rightarrow> json) \<Rightarrow> json \<Rightarrow> json" where
  "update_first f (JArr (x # xs)) = JArr (f x # xs)"
| "update_first f (JObj kvs) = update_field (lit ''0'') f (JObj kvs)"
| "update_first f v = v"

text \<open>
  \<open>delta.content = v; delete delta.reasoning_content\<close>: a new property goes to the end
  of the object.
\<close>

fun assign_content :: "json \<Rightarrow> json \<Rightarrow> json" where
  "assign_content v (JObj kvs) =
     JObj (AList.delete (lit ''reasoning_content'') (AList.update (lit ''content'') v kvs))"
| "assign_content v d = d"

definition set_delta_content :: "json \<Rightarrow> json \<Rightarrow> json" where
  "set_delta_content data v =
     update_field (lit ''choices'')
       (update_first (update_field (lit ''delta'') (assign_content v))) data"

text \<open>\<open>data.choices?.[0]?.delta\<close>, for \<open>data\<close> other than \<open>null\<close>.\<close>

definition delta_of :: "json \<Rightarrow> json option" where
  "delta_of data = opt_field (lit ''delta'') (opt_first (field (lit ''choices'') data))"

text \<open>
  The body of the \<open>try\<close> after \<open>JSON.parse\<close>, for the parsed \<open>data\<close>: what is written
  and the flag afterwards. A \<open>TypeError\<close> (reading \<open>choices\<close> of \<open>null\<close>, a \<open>+\<close> that
  throws) ends in the \<open>catch\<close>, which keeps what was written and set until then.
\<close>

definition on_event :: "platform \<Rightarrow> bool \<Rightarrow> bool \<Rightarrow> json \<Rightarrow> out list \<times> bool" where
  "on_event pf show started data =
     (if data = JNull then ([], started)
      else
        let delta = delta_of data in
        if truthy delta then
          (let reasoning = opt_field (lit ''reasoning_content'') delta;
               content = opt_field (lit ''content'') delta
           in if show then
                (let (closing, started) =
                       (if started \<and> \<not> truthy reasoning \<and> truthy content
                        then ([Write_data (delta_close data)], False)
                        else ([], started))
                 in case (case if_truthy reasoning of
                            None \<Rightarrow> Some (JStr [], started)
                          | Some r \<Rightarrow>
                              if \<not> started
                              then map_option (\<lambda>c. (c, True)) (js_plus pf (JStr open_marker) r)
                              else Some (r, started)) of
                      None \<Rightarrow> (closing, started)
                    | Some (combinedContent, started) \<Rightarrow>
                        (case (case if_truthy content of
                                 None \<Rightarrow> Some combinedContent
                               | Some c \<Rightarrow> js_plus pf combinedContent c) of
                           None \<Rightarrow> (closing, started)
                         | Some combinedContent \<Rightarrow>
                             (closing @ [Write_data (set_delta_content data combinedContent)],
                              started)))
              else ([Write_data (set_delta_content data (or_else content (JStr [])))],
                    started))
        else ([Write_data data], started))"

text \<open>The callback of \<open>lines.forEach\<close>.\<close>

definition on_line :: "platform \<Rightarrow> bool \<Rightarrow> bool \<Rightarrow> jstring \<Rightarrow> out list \<times> bool" where
  "on_line pf show started rawLine =
     (let line = strip_cr rawLine in
      if \<not> startsWith line (lit ''data:'') then ([], started)
      else if includes_str line (lit ''[DONE]'') then
        (if show \<and> started then ([Write_data done_close, Write_done], False)
         else ([Write_done], started))
      else
        (case JSON_parse pf (strip_data line) of
           None \<Rightarrow> ([], started)
         | Some data \<Rightarrow> on_event pf show started data))"

fun for_each_line ::
  "platform \<Rightarrow> bool \<Rightarrow> bool \<Rightarrow> jstring list \<Rightarrow> out list \<times> bool" where
  "for_each_line pf show started [] = ([], started)"
| "for_each_line pf show started (l # ls) =
     (let (written, started) = on_line pf show started l;
          (more, started) = for_each_line pf show started ls
      in (written @ more, started))"

text \<open>
  The decoded text joins the buffer, the complete lines are handled and the last piece
  stays in the buffer.
\<close>

definition on_text ::
  "platform \<Rightarrow> bool \<Rightarrow> stream_state \<Rightarrow> jstring \<Rightarrow> out list \<times> stream_state" where
  "on_text pf show st text =
     (let lines = split_on LF (buffer st @ text);
          (written, started) =
            for_each_line pf show (reasoningStarted st) (butlast lines)
      in (written,
          \<lparr>buffer = (if lines = [] then [] else last lines), reasoningStarted = started\<rparr>))"

text \<open>The listener for \<open>data\<close>.\<close>

definition on_data ::
  "platform \<Rightarrow> bool \<Rightarrow> stream_state \<Rightarrow> byte list \<Rightarrow> out list \<times> stream_state" where
  "on_data pf show st chunk = on_text pf show st (toString chunk)"

text \<open>The chunks of one response, one \<open>data\<close> event after the other.\<close>

fun feed ::
  "platform \<Rightarrow> bool \<Rightarrow> stream_state \<Rightarrow> byte list list \<Rightarrow> out list \<times> stream_state" where
  "feed pf show st [] = ([], st)"
| "feed pf show st (chunk # chunks) =
     (let (written, st) = on_data pf show st chunk;
          (more, st) = feed pf show st chunks
      in (written @ more, st))"

text \<open>The listener for \<open>end\<close>.\<close>

definition on_end :: "bool \<Rightarrow> stream_state \<Rightarrow> out list" where
  "on_end show st = (if show \<and> reasoningStarted st then [Write_data done_close] else [])"

text \<open>
  A whole streamed response: its chunks, then \<open>end\<close> (\<open>ended\<close>) or \<open>error\<close>, which
  writes nothing more.
\<close>

definition transform_stream :: "platform \<Rightarrow> bool \<Rightarrow> byte list list \<Rightarrow> bool \<Rightarrow> out list" where
  "transform_stream pf show chunks ended =
     (let (written, st) = feed pf show \<lparr>buffer = [], reasoningStarted = False\<rparr> chunks
      in written @ (if ended then on_end show st else []))"

section \<open>The non-streaming response\<close>

text \<open>
  The first occurrence of \<open>p\<close> in a string: the text before it and the text after it.
\<close>

fun split_first :: "'a list \<Rightarrow> 'a list \<Rightarrow> ('a list \<times> 'a list) option" where
  "split_first p [] = (if p = [] then Some ([], []) else None)"
| "split_first p (c # cs) =
     (if startsWith (c # cs) p then Some ([], drop (length p) (c # cs))
      else map_option (\<lambda>(before, after). (c # before, after)) (split_first p cs))"

text \<open>
  \<open>content.match(/^<think>([\s\S]*?)<\/think>\s*([\s\S]*)$/)\<close>: the two groups. The
  first group is lazy, so it ends at the first closing tag; the white space after the tag
  is skipped and the second group is all the rest.
\<close>

definition think_match :: "jstring \<Rightarrow> (jstring \<times> jstring) option" where
  "think_match content =
     (if startsWith content (lit ''<think>'') then
        (case split_first (lit ''</think>'') (drop 7 content) of
           None \<Rightarrow> None
         | Some (inner, rest) \<Rightarrow> Some (inner, dropWhile is_space rest))
      else None)"

text \<open>
  \<open>content.includes('<think>')\<close>: a string is searched, an array is asked for an
  element equal to the tag, any other value has no such method (\<open>None\<close>: it throws).
\<close>

fun includes_think :: "json \<Rightarrow> bool option" where
  "includes_think (JStr s) = Some (includes_str s (lit ''<think>''))"
| "includes_think (JArr xs) = Some (JStr (lit ''<think>'') \<in> set xs)"
| "includes_think v = None"

text \<open>
  The object a choice is mapped to, \<open>None\<close> where \<open>choice.message.role\<close> throws because
  there is no message.
\<close>

definition choice_result :: "json \<Rightarrow> json \<Rightarrow> json option" where
  "choice_result choice content =
     (case field (lit ''message'') choice of
        None \<Rightarrow> None
      | Some JNull \<Rightarrow> None
      | Some m \<Rightarrow>
          Some (obj [(''index'', field (lit ''index'') choice),
                     (''message'', Some (obj [(''role'', field (lit ''role'') m),
                                              (''content'', Some content)])),
                     (''finish_reason'', field (lit ''finish_reason'') choice)]))"

text \<open>\<open>'<think>\n' + reasoning + '\n</think>\n\n' + content\<close>.\<close>

definition wrap_reasoning :: "platform \<Rightarrow> json \<Rightarrow> json \<Rightarrow> json option" where
  "wrap_reasoning pf reasoning content =
     Option.bind (js_plus pf (JStr open_marker) reasoning)
       (\<lambda>a. Option.bind (js_plus pf a (JStr (LF # close_marker)))
          (\<lambda>b. js_plus pf b content))"

text \<open>The callback of \<open>choices.map\<close>; \<open>None\<close> where it throws.\<close>

definition map_choice :: "platform \<Rightarrow> bool \<Rightarrow> bool \<Rightarrow> json \<Rightarrow> json option" where
  "map_choice pf show useThinking choice =
     (if choice = JNull then None
      else
        let message = field (lit ''message'') choice;
            content = or_else (opt_field (lit ''content'') message) (JStr []);
            reasoning = or_else (opt_field (lit ''reasoning_content'') message) (JStr []);
            usual =
              (if show \<and> truthy (Some reasoning)
               then Option.bind (wrap_reasoning pf reasoning content) (choice_result choice)
               else choice_result choice content)
        in if \<not> useThinking \<and> \<not> truthy (Some reasoning) then
             (case includes_think content of
                None \<Rightarrow> None
              | Some False \<Rightarrow> usual
              | Some True \<Rightarrow>
                  (case content of
                     JStr s \<Rightarrow>
                       (case think_match s of
                          None \<Rightarrow> usual
                        | Some (inner, rest) \<Rightarrow>
                            (let extractedReasoning = trim inner;
                                 extractedContent = trim rest
                             in choice_result choice
                                  (JStr (if show
                                         then open_marker @ extractedReasoning
                                              @ LF # close_marker @ extractedContent
                                         else extractedContent))))
                   | _ \<Rightarrow> None))
           else usual)"

text \<open>\<open>Date.now()\<close> in a template string: the decimal digits of a number.\<close>

fun decimal :: "nat \<Rightarrow> jstring" where
  "decimal n =
     (if n < 10 then [of_nat (48 + n)]
      else decimal (n div 10) @ [of_nat (48 + n mod 10)])"

text \<open>
  The two debugging lines before the response is built call \<open>includes\<close> and
  \<open>substring\<close> on the first choice's content when it is true in a condition; both exist
  on a string only.
\<close>

definition debug_log_throws :: "json \<Rightarrow> bool" where
  "debug_log_throws data =
     (data = JNull \<or>
      (case if_truthy (opt_field (lit ''content'') (opt_field (lit ''message'')
              (opt_first (field (lit ''choices'') data)))) of
         None \<Rightarrow> False
       | Some (JStr s) \<Rightarrow> False
       | Some v \<Rightarrow> True))"

definition zero_usage :: json where
  "zero_usage =
     obj [(''prompt_tokens'', Some (JNum 0)),
          (''completion_tokens'', Some (JNum 0)),
          (''total_tokens'', Some (JNum 0))]"

text \<open>
  The response object for the upstream body \<open>data\<close>, built at the time \<open>now\<close>
  (milliseconds); \<open>None\<close> where building it throws.
\<close>

definition openaiResponse ::
  "platform \<Rightarrow> bool \<Rightarrow> bool \<Rightarrow> nat \<Rightarrow> jstring \<Rightarrow> json \<Rightarrow> json option" where
  "openaiResponse pf show useThinking now model data =
     (if debug_log_throws data then None
      else
        (case field (lit ''choices'') data of
           Some (JArr choices) \<Rightarrow>
             (case those (map (map_choice pf show useThinking) choices) of
                None \<Rightarrow> None
              | Some mapped \<Rightarrow>
                  Some (obj [(''id'', Some (JStr (lit ''chatcmpl-'' @ decimal now))),
                             (''object'', Some (JStr (lit ''chat.completion''))),
                             (''created'', Some (JNum (of_nat (now div 1000)))),
                             (''model'', Some (JStr model)),
                             (''choices'', Some (JArr mapped)),
                             (''usage'', Some (or_else (field (lit ''usage'') data)
                                                  zero_usage))]))
         | _ \<Rightarrow> None))"

section \<open>The handler of POST /v1/chat/completions\<close>

text \<open>
  The body of a request. The requested model is a name, that is a string; the other
  fields are any JSON value, or missing.
\<close>

record request_body =
  model :: jstring
  messages :: "json option"
  temperature :: "json option"
  max_tokens :: "json option"
  stream :: "json option"

record nim_request =
  nim_model :: nim_model
  nim_messages :: "json option"
  nim_temperature :: json
  nim_max_tokens :: json
  nim_stream :: json
  chat_template_kwargs :: "json option"

text \<open>\<open>!messages || !Array.isArray(messages) || messages.length === 0\<close>.\<close>

definition messages_rejected :: "json option \<Rightarrow> bool" where
  "messages_rejected msgs \<longleftrightarrow>
     \<not> truthy msgs
     \<or> (case msgs of Some (JArr xs) \<Rightarrow> False | _ \<Rightarrow> True)
     \<or> (case msgs of Some (JArr xs) \<Rightarrow> length xs = 0 | _ \<Rightarrow> False)"

definition nimRequest :: "request_body \<Rightarrow> nim_model \<Rightarrow> bool \<Rightarrow> nim_request" where
  "nimRequest body nimModel useThinking =
     \<lparr>nim_model = nimModel,
      nim_messages = messages body,
      nim_temperature = or_else (temperature body) (JNum (85 / 100)),
      nim_max_tokens = or_else (max_tokens body) (JNum 16384),
      nim_stream = or_else (stream body) (JBool False),
      chat_template_kwargs =
        (if useThinking then Some (obj [(''thinking'', Some (JBool True))]) else None)\<rparr>"

text \<open>
  The upstream service as the handler meets it: the answer to a probe, and to the real
  call either a rejection (\<open>Inl\<close>: the status of \<open>error.response\<close> if there is one, and
  \<open>error.message\<close>) or the body; a streamed body is its chunks and whether it ended with
  \<open>end\<close> rather than \<open>error\<close>.
\<close>

record upstream =
  probe :: "jstring \<Rightarrow> nat option"
  post_json :: "nim_request \<Rightarrow> (nat option \<times> jstring) + json"
  post_stream :: "nim_request \<Rightarrow> (nat option \<times> jstring) + (byte list list \<times> bool)"

datatype call = Probe jstring | Chat nim_request

text \<open>
  How a request fails: the messages are rejected, or something thrown reaches the outer
  \<open>catch\<close> (with the status of \<open>error.response\<close>, if any, and the message).
\<close>

datatype failure = Invalid_messages | Thrown "nat option" jstring

datatype reply = Completion json | Event_stream "out list"

definition error_envelope :: "jstring \<Rightarrow> nat \<Rightarrow> json" where
  "error_envelope message code =
     obj [(''error'', Some (obj [(''message'', Some (JStr message)),
                                 (''type'', Some (JStr (lit ''invalid_request_error''))),
                                 (''code'', Some (JNum (of_nat code)))]))]"

text \<open>The status and the body sent for a failure.\<close>

fun respond :: "failure \<Rightarrow> nat \<times> json" where
  "respond Invalid_messages =
     (400, error_envelope
             (0x27 # lit ''messages'' @ 0x27
                # lit '' is required and must be a non-empty array'') 400)"
| "respond (Thrown status message) =
     (let code = (case status of None \<Rightarrow> 500 | Some s \<Rightarrow> if s = 0 then 500 else s)
      in (code, error_envelope
                  (if message = [] then lit ''Internal server error'' else message) code))"

text \<open>
  The handler: for a request at the time \<open>now\<close> with the cache \<open>verifiedModels\<close>, the
  outcome, the cache afterwards and the calls made upstream, in order.
\<close>

definition chat_completions ::
  "platform \<Rightarrow> upstream \<Rightarrow> nat \<Rightarrow> verified \<Rightarrow> request_body
     \<Rightarrow> (failure + reply) \<times> verified \<times> call list" where
  "chat_completions pf up now verifiedModels body =
     (if messages_rejected (messages body) then (Inl Invalid_messages, verifiedModels, [])
      else
        let (nimModel, verifiedModels, probes) =
              resolve_model pf (probe up) verifiedModels (model body);
            useThinking = (ENABLE_THINKING_MODE \<and> thinking_capable nimModel);
            request = nimRequest body nimModel useThinking;
            calls = map Probe probes @ [Chat request]
        in if truthy (stream body) then
             (case post_stream up request of
                Inl (status, message) \<Rightarrow> (Inl (Thrown status message), verifiedModels, calls)
              | Inr (chunks, ended) \<Rightarrow>
                  (Inr (Event_stream (transform_stream pf SHOW_REASONING chunks ended)),
                   verifiedModels, calls))
           else
             (case post_json up request of
                Inl (status, message) \<Rightarrow> (Inl (Thrown status message), verifiedModels, calls)
              | Inr data \<Rightarrow>
                  (case openaiResponse pf SHOW_REASONING useThinking now (model body) data of
                     None \<Rightarrow>
                       (Inl (Thrown None (type_error_message pf)), verifiedModels, calls)
                   | Some response \<Rightarrow> (Inr (Completion response), verifiedModels, calls))))"

section \<open>Sample inputs\<close>

text \<open>
  Concrete inputs on which the definitions are evaluated: a platform whose
  \<open>JSON.parse\<close> knows a few payloads and whose \<open>toLowerCase\<close> lowers ASCII letters, an
  upstream service that answers no probe, and two request bodies.
\<close>

definition bytes :: "string \<Rightarrow> byte list" where
  "bytes s = map of_char s"

definition ascii_lower :: "jstring \<Rightarrow> jstring" where
  "ascii_lower s = map (\<lambda>c. if 0x41 \<le> c \<and> c \<le> 0x5A then c + 0x20 else c) s"

definition content_payload :: "jstring \<Rightarrow> jstring" where
  \<open>content_payload c = lit ''{"choices":[{"delta":{"content":"'' @ c @ lit ''"}}]}''\<close>

definition content_event :: "jstring \<Rightarrow> json" where
  "content_event c =
     obj [(''choices'', Some (JArr [obj
       [(''delta'', Some (obj [(''content'', Some (JStr c))]))]]))]"

definition reasoning_event :: "jstring \<Rightarrow> json" where
  "reasoning_event r =
     obj [(''choices'', Some (JArr [obj
       [(''delta'', Some (obj [(''reasoning_content'', Some (JStr r))]))]]))]"

definition sample_parse :: "jstring \<Rightarrow> json option" where
  "sample_parse s =
     map_of (map (\<lambda>c. (content_payload c, content_event c))
               [lit ''Hi'', lit ''[DONE]'', [0xE9], [0xFFFD, 0xFFFD]]) s"

definition sample_platform :: platform where
  "sample_platform =
     \<lparr>JSON_parse = sample_parse, plus_coerce = (\<lambda>a b. None), toLowerCase = ascii_lower,
      type_error_message = lit ''TypeError''\<rparr>"

definition sample_upstream :: upstream where
  "sample_upstream =
     \<lparr>probe = (\<lambda>name. Some 404),
      post_json = (\<lambda>request. Inl (Some 503, lit ''Request failed with status code 503'')),
      post_stream = (\<lambda>request. Inr ([], True))\<rparr>"

definition sample_body :: request_body where
  "sample_body =
     \<lparr>model = lit ''gpt-4'',
      messages = Some (JArr [obj [(''role'', Some (JStr (lit ''user''))),
                                  (''content'', Some (JStr (lit ''Hi'')))]]),
      temperature = None, max_tokens = None, stream = None\<rparr>"

definition sample_body_without_messages :: request_body where
  "sample_body_without_messages = sample_body\<lparr>messages := None\<rparr>"

text \<open>
  The bytes of one event line whose content is U+00E9 (in UTF-8 the two bytes C3 A9), cut
  between the two bytes.
\<close>

definition chunk_head :: "byte list" where
  \<open>chunk_head = bytes ''data: {"choices":[{"delta":{"content":"'' @ [0xC3]\<close>

definition chunk_tail :: "byte list" where
  \<open>chunk_tail = 0xA9 # bytes ''"}}]}'' @ [0x0A]\<close>

text \<open>Two lines that are not JSON after \<open>data:\<close>; the first contains \<open>[DONE]\<close>.\<close>

definition truncated_line :: jstring where
  \<open>truncated_line = lit ''data: {"choices":[{"delta":{"content":"[DONE]''\<close>

definition malformed_line :: jstring where
  \<open>malformed_line = lit ''data: {"choices":[{"delta"''\<close>

definition malformed_chunk :: "byte list" where
  \<open>malformed_chunk = bytes ''data: {"choices":[{"delta"'' @ [0x0A]\<close>

definition hi_chunk :: "byte list" where
  \<open>hi_chunk = bytes ''data: {"choices":[{"delta":{"content":"Hi"}}]}'' @ [0x0A]\<close>

text \<open>Events without a delta in the first choice, and with a second choice.\<close>

definition no_choices :: json where
  "no_choices = obj [(''choices'', Some (JArr []))]"

definition two_choices :: json where
  "two_choices =
     obj [(''choices'', Some (JArr
       [obj [(''index'', Some (JNum 0)),
             (''delta'', Some (obj [(''content'', Some (JStr (lit ''a'')))]))],
        obj [(''index'', Some (JNum 1)),
             (''delta'', Some (obj [(''reasoning_content'', Some (JStr (lit ''b'')))]))]]))]"

text \<open>A choice of a complete response with the reasoning inside the content.\<close>

definition inline_think_choice :: json where
  "inline_think_choice =
     obj [(''index'', Some (JNum 0)),
          (''message'', Some (obj
             [(''role'', Some (JStr (lit ''assistant''))),
              (''content'', Some (JStr (lit ''<think>'' @ LF # lit ''X'' @ LF # lit ''</think>''
                                        @ LF # LF # lit ''Y'')))])),
          (''finish_reason'', Some (JStr (lit ''stop'')))]"

section \<open>Searching in strings\<close>

lemma startsWith_iff: "startsWith s p \<longleftrightarrow> (\<exists>v. s = p @ v)"
  by (induction s p rule: startsWith.induct) auto

text \<open>\<open>includes_str s p\<close> holds exactly when \<open>p\<close> occurs in \<open>s\<close>.\<close>

lemma includes_str_iff: "includes_str s p \<longleftrightarrow> (\<exists>u v. s = u @ p @ v)"
proof (induction s)
  case Nil
  then show ?case by auto
next
  case (Cons c cs)
  show ?case
  proof
    assume "includes_str (c # cs) p"
    then consider "startsWith (c # cs) p" | "includes_str cs p" by auto
    then show "\<exists>u v. c # cs = u @ p @ v"
    proof cases
      case 1
      then obtain v where "c # cs = p @ v" by (auto simp: startsWith_iff)
      then have "c # cs = [] @ p @ v" by simp
      then show ?thesis by blast
    next
      case 2
      then obtain u v where "cs = u @ p @ v" using Cons.IH by auto
      then have "c # cs = (c # u) @ p @ v" by simp
      then show ?thesis by blast
    qed
  next
    assume "\<exists>u v. c # cs = u @ p @ v"
    then obtain u v where uv: "c # cs = u @ p @ v" by auto
    show "includes_str (c # cs) p"
    proof (cases u)
      case Nil
      with uv have "startsWith (c # cs) p" by (auto simp: startsWith_iff)
      then show ?thesis by simp
    next
      case (Cons a u')
      with uv have "cs = u' @ p @ v" by simp
      then have "includes_str cs p" using Cons.IH by blast
      then show ?thesis by simp
    qed
  qed
qed

section \<open>Model resolution: fallback and cache\<close>

text \<open>
  A name that \<open>MODEL_MAPPING[name]\<close> does not resolve and whose probe result is \<open>null\<close>
  (cached, or the probe made now does not verify it) resolves by the fallback on the
  lowercased name, the first rule that matches winning: with "gpt-4", "claude-opus" or
  "405b" in it the 405b model, also when "70b" occurs as well; otherwise with "claude",
  "gemini" or "70b" in it the 70b model; otherwise the 8b model.
\<close>

lemma fallback_priority:
  assumes "unresolved (MODEL_MAPPING_get name)"
    and "verifiedModels name = Some None
         \<or> (verifiedModels name = None \<and> \<not> probe_verifies (ask name))"
  shows "(let ml = toLowerCase pf name;
              nimModel = fst (resolve_model pf ask verifiedModels name);
              largest = (includes_str ml (lit ''gpt-4'') \<or> includes_str ml (lit ''claude-opus'')
                         \<or> includes_str ml (lit ''405b''));
              middle = (includes_str ml (lit ''claude'') \<or> includes_str ml (lit ''gemini'')
                        \<or> includes_str ml (lit ''70b''))
          in (largest \<longrightarrow> nimModel = Named (lit ''meta/llama-3.1-405b-instruct''))
           \<and> (\<not> largest \<and> middle \<longrightarrow> nimModel = Named (lit ''meta/llama-3.1-70b-instruct''))
           \<and> (\<not> largest \<and> \<not> middle
                \<longrightarrow> nimModel = Named (lit ''meta/llama-3.1-8b-instruct'')))"
  using assms by (auto simp: resolve_model_def fallback_def Let_def)

lemma fallback_priority_example:
  "(let name = lit ''My-GPT-4-70B''; ml = ascii_lower name
    in unresolved (MODEL_MAPPING_get name)
     \<and> \<not> probe_verifies (probe sample_upstream name)
     \<and> includes_str ml (lit ''gpt-4'') \<and> includes_str ml (lit ''70b'')
     \<and> fst (resolve_model sample_platform (probe sample_upstream) Map.empty name)
         = Named (lit ''meta/llama-3.1-405b-instruct''))"
proof -
  have 1: "unresolved (MODEL_MAPPING_get (lit ''My-GPT-4-70B''))"
    by (simp add: MODEL_MAPPING_get_def MODEL_MAPPING_def object_prototype_members_def lit_def)
  have 2: "Map.empty (lit ''My-GPT-4-70B'') = Some None
           \<or> (Map.empty (lit ''My-GPT-4-70B'') = None
               \<and> \<not> probe_verifies (probe sample_upstream (lit ''My-GPT-4-70B'')))"
    by (simp add: probe_verifies_def sample_upstream_def)
  have 3: "includes_str (ascii_lower (lit ''My-GPT-4-70B'')) (lit ''gpt-4'')"
    "includes_str (ascii_lower (lit ''My-GPT-4-70B'')) (lit ''70b'')"
    by (simp_all add: ascii_lower_def lit_def)
  have 4: "toLowerCase sample_platform = ascii_lower" by (simp add: sample_platform_def)
  show ?thesis
    using fallback_priority [of "lit ''My-GPT-4-70B''" Map.empty "probe sample_upstream"
        sample_platform, OF 1 2] 1 2 3
    by (simp add: Let_def 4)
qed

text \<open>
  C5. The name \<open>constructor\<close> is not in the alias table, yet \<open>MODEL_MAPPING[model]\<close>
  finds the member of that name which every object inherits and takes it for the
  resolved model: the cache is not consulted, no probe is sent and the fallback, which
  would give the 8b model, is not applied.
\<close>

theorem inherited_member_taken_for_alias:
  "map_of MODEL_MAPPING (lit ''constructor'') = None
   \<and> resolve_model pf ask verifiedModels (lit ''constructor'')
       = (Inherited (lit ''constructor''), verifiedModels, [])
   \<and> loop_step pf (verifiedModels, waiting) (Request (lit ''constructor''))
       = ((verifiedModels, waiting), [Resolved (lit ''constructor'') (Inherited (lit ''constructor''))])
   \<and> fallback sample_platform (lit ''constructor'') = lit ''meta/llama-3.1-8b-instruct''"
  by (simp add: resolve_model_def resolve_start_def MODEL_MAPPING_get_def MODEL_MAPPING_def
      object_prototype_members_def fallback_def sample_platform_def ascii_lower_def lit_def)

section \<open>Model resolution in the event loop\<close>

lemma resolve_model_two_halves:
  "resolve_model pf ask verifiedModels name =
     (case resolve_start pf verifiedModels name of
        Some m \<Rightarrow> (m, verifiedModels, [])
      | None \<Rightarrow>
          (let (m, vm) = resolve_settle pf verifiedModels name (ask name)
           in (m, vm, [name])))"
  by (auto simp: resolve_model_def resolve_start_def resolve_settle_def probe_entry_def Let_def
      split: option.splits)

lemma resolve_start_entry:
  "vm name = vm' name \<Longrightarrow> resolve_start pf vm name = resolve_start pf vm' name"
  by (simp add: resolve_start_def Let_def)

lemma resolve_start_known:
  "resolve_start pf vm name \<noteq> None \<longleftrightarrow>
     \<not> unresolved (MODEL_MAPPING_get name) \<or> vm name \<noteq> None"
  by (auto simp: resolve_start_def Let_def split: option.splits)

lemma resolve_settle_then_start:
  assumes "unresolved (MODEL_MAPPING_get name)"
    and "resolve_settle pf vm name answer = (m, vm')"
  shows "resolve_start pf vm' name = Some m" and "vm' name = Some (probe_entry name answer)"
  using assms
  by (auto simp: resolve_start_def resolve_settle_def probe_entry_def Let_def split: if_splits)

lemma loop_step_waiting:
  assumes "waiting_unmapped s" and "loop_step pf s e = (s', outs)"
  shows "waiting_unmapped s'"
proof (cases s)
  case (Pair vm waiting)
  show ?thesis
  proof (cases e)
    case (Request k)
    then show ?thesis using assms Pair
      by (auto simp: waiting_unmapped_def resolve_start_def Let_def
          split: option.splits if_splits)
  next
    case (Probe_settles k answer)
    then show ?thesis using assms Pair
      by (auto simp: waiting_unmapped_def split: if_splits prod.splits dest: notin_set_remove1)
  qed
qed

lemma run_events_waiting:
  "waiting_unmapped s \<Longrightarrow> run_events pf s es = (s', outs) \<Longrightarrow> waiting_unmapped s'"
proof (induction es arbitrary: s outs)
  case Nil
  then show ?case by simp
next
  case (Cons e es)
  obtain s1 o1 where 1: "loop_step pf s e = (s1, o1)" by (cases "loop_step pf s e")
  obtain o2 where 2: "run_events pf s1 es = (s', o2)"
    using Cons.prems(2) 1 by (auto split: prod.splits)
  have "waiting_unmapped s1" using Cons.prems(1) 1 by (rule loop_step_waiting)
  then show ?case using 2 by (rule Cons.IH)
qed

lemma loop_step_known:
  assumes "resolve_start pf (fst s) name \<noteq> None" and "loop_step pf s e = (s', outs)"
  shows "resolve_start pf (fst s') name \<noteq> None"
proof (cases s)
  case (Pair vm waiting)
  have k: "\<not> unresolved (MODEL_MAPPING_get name) \<or> vm name \<noteq> None"
    using assms(1) Pair by (simp only: resolve_start_known fst_conv)
  show ?thesis
  proof (cases e)
    case (Request k)
    then have "fst s' = fst s" using assms(2) Pair by (auto split: option.splits)
    then show ?thesis using assms(1) by simp
  next
    case (Probe_settles k answer)
    then have "\<not> unresolved (MODEL_MAPPING_get name) \<or> fst s' name \<noteq> None"
      using assms(2) Pair k by (auto simp: resolve_settle_def Let_def split: if_splits)
    then show ?thesis by (simp only: resolve_start_known)
  qed
qed

lemma run_events_known:
  "resolve_start pf (fst s) name \<noteq> None \<Longrightarrow> run_events pf s es = (s', outs)
   \<Longrightarrow> resolve_start pf (fst s') name \<noteq> None"
proof (induction es arbitrary: s outs)
  case Nil
  then show ?case by simp
next
  case (Cons e es)
  obtain s1 o1 where 1: "loop_step pf s e = (s1, o1)" by (cases "loop_step pf s e")
  obtain o2 where 2: "run_events pf s1 es = (s', o2)"
    using Cons.prems(2) 1 by (auto split: prod.splits)
  have "resolve_start pf (fst s1) name \<noteq> None" using Cons.prems(1) 1 by (rule loop_step_known)
  then show ?case using 2 by (rule Cons.IH)
qed

text \<open>The entry of a name stays as it is while every probe that settles for it writes the same entry.\<close>

lemma loop_step_entry:
  assumes "loop_step pf s e = (s', outs)"
    and "\<forall>answer. e = Probe_settles name answer \<longrightarrow> fst s name = Some (probe_entry name answer)"
  shows "fst s' name = fst s name"
proof (cases s)
  case (Pair vm waiting)
  show ?thesis
  proof (cases e)
    case (Request k)
    then show ?thesis using assms Pair by (auto split: option.splits)
  next
    case (Probe_settles k answer)
    then show ?thesis using assms Pair
      by (auto simp: resolve_settle_def Let_def split: if_splits)
  qed
qed

lemma run_events_entry:
  "run_events pf s es = (s', outs) \<Longrightarrow>
   \<forall>answer. Probe_settles name answer \<in> set es \<longrightarrow> fst s name = Some (probe_entry name answer)
   \<Longrightarrow> fst s' name = fst s name"
proof (induction es arbitrary: s outs)
  case Nil
  then show ?case by simp
next
  case (Cons e es)
  obtain s1 o1 where 1: "loop_step pf s e = (s1, o1)" by (cases "loop_step pf s e")
  obtain o2 where 2: "run_events pf s1 es = (s', o2)"
    using Cons.prems(1) 1 by (auto split: prod.splits)
  have a: "fst s1 name = fst s name"
    using 1 by (rule loop_step_entry) (use Cons.prems(2) in auto)
  have "fst s' name = fst s1 name"
    using 2 by (rule Cons.IH) (use Cons.prems(2) a in auto)
  then show ?case using a by simp
qed

text \<open>With no probe for the name in flight and the name known, none is sent and the entry stays.\<close>

lemma loop_step_quiet:
  assumes "loop_step pf s e = (s', outs)" and "name \<notin> set (snd s)"
    and "resolve_start pf (fst s) name \<noteq> None"
  shows "name \<notin> set (snd s') \<and> fst s' name = fst s name"
proof (cases s)
  case (Pair vm waiting)
  show ?thesis
  proof (cases e)
    case (Request k)
    then show ?thesis using assms Pair by (auto split: option.splits)
  next
    case (Probe_settles k answer)
    then show ?thesis using assms Pair
      by (auto simp: resolve_settle_def Let_def split: if_splits dest: notin_set_remove1)
  qed
qed

lemma run_events_quiet:
  "run_events pf s es = (s', outs) \<Longrightarrow> name \<notin> set (snd s)
   \<Longrightarrow> resolve_start pf (fst s) name \<noteq> None \<Longrightarrow> fst s' name = fst s name"
proof (induction es arbitrary: s outs)
  case Nil
  then show ?case by simp
next
  case (Cons e es)
  obtain s1 o1 where 1: "loop_step pf s e = (s1, o1)" by (cases "loop_step pf s e")
  obtain o2 where 2: "run_events pf s1 es = (s', o2)"
    using Cons.prems(1) 1 by (auto split: prod.splits)
  have a: "name \<notin> set (snd s1) \<and> fst s1 name = fst s name"
    using 1 Cons.prems(2,3) by (rule loop_step_quiet)
  have k: "resolve_start pf (fst s1) name \<noteq> None"
    using Cons.prems(3) 1 by (rule loop_step_known)
  have "fst s' name = fst s1 name"
    using 2 by (rule Cons.IH) (use a k in auto)
  then show ?case using a by simp
qed

lemma completed_then_start:
  assumes "waiting_unmapped s" and "loop_step pf s e = (s1, [Resolved name m])"
  shows "resolve_start pf (fst s1) name = Some m"
proof (cases s)
  case (Pair vm waiting)
  show ?thesis
  proof (cases e)
    case (Request k)
    then show ?thesis using assms Pair by (auto split: option.splits)
  next
    case (Probe_settles k answer)
    then show ?thesis using assms Pair
      by (auto simp: waiting_unmapped_def split: if_splits prod.splits
          dest: resolve_settle_then_start(1) [rotated])
  qed
qed

text \<open>
  C6, as stated, fails: two requests for the same name arrive before either probe has
  settled. The first probe to settle verifies the name, and that resolution completes
  with the name itself; the other probe then fails and overwrites the entry with
  \<open>null\<close>. A request that arrives afterwards sends no probe and resolves to the
  fallback, not to the model of the first resolution.
\<close>

theorem late_probe_overwrites_counterexample:
  "snd (run_events sample_platform (Map.empty, [])
          [Request (lit ''foo-70b''), Request (lit ''foo-70b''),
           Probe_settles (lit ''foo-70b'') (Some 200),
           Probe_settles (lit ''foo-70b'') None,
           Request (lit ''foo-70b'')])
     = [Probe_sent (lit ''foo-70b''), Probe_sent (lit ''foo-70b''),
        Resolved (lit ''foo-70b'') (Named (lit ''foo-70b'')),
        Resolved (lit ''foo-70b'') (Named (lit ''meta/llama-3.1-70b-instruct'')),
        Resolved (lit ''foo-70b'') (Named (lit ''meta/llama-3.1-70b-instruct''))]"
proof -
  have 1: "MODEL_MAPPING_get (lit ''foo-70b'') = None"
    by (simp add: MODEL_MAPPING_get_def MODEL_MAPPING_def object_prototype_members_def lit_def)
  have 2: "fallback sample_platform (lit ''foo-70b'') = lit ''meta/llama-3.1-70b-instruct''"
    by (simp add: fallback_def sample_platform_def ascii_lower_def lit_def)
  have 3: "lit ''foo-70b'' \<noteq> []" by (simp add: lit_def)
  show ?thesis
    by (simp add: resolve_start_def resolve_settle_def probe_entry_def probe_verifies_def 1 2 3)
qed

text \<open>
  C6, amended. From a start with no probe in flight, once a resolution of a name has
  completed, a request for that name that arrives later, whatever happened in between,
  sends no probe and leaves cache and waiting requests as they are; and it resolves to
  the model of that first resolution if no probe for the name is still in flight when
  the first resolution completes, or if every probe for the name that settles later
  writes the entry the cache holds then.
\<close>

theorem resolution_after_completion:
  assumes "run_events pf (verifiedModels, []) before = (s, outcomes)"
    and "loop_step pf s e = (s1, [Resolved name m])"
    and "run_events pf s1 es = (s2, later)"
  shows "(\<exists>m'. loop_step pf s2 (Request name) = (s2, [Resolved name m']))
       \<and> (name \<notin> set (snd s1)
            \<or> (\<forall>answer. Probe_settles name answer \<in> set es
                  \<longrightarrow> fst s1 name = Some (probe_entry name answer))
          \<longrightarrow> loop_step pf s2 (Request name) = (s2, [Resolved name m]))"
proof -
  have "waiting_unmapped (verifiedModels, [])" by (simp add: waiting_unmapped_def)
  then have wf: "waiting_unmapped s" using assms(1) by (rule run_events_waiting)
  have start: "resolve_start pf (fst s1) name = Some m"
    using wf assms(2) by (rule completed_then_start)
  then have "resolve_start pf (fst s1) name \<noteq> None" by simp
  then have known: "resolve_start pf (fst s2) name \<noteq> None"
    using assms(3) by (rule run_events_known)
  obtain vm2 w2 where s2: "s2 = (vm2, w2)" by (cases s2)
  have first: "\<exists>m'. loop_step pf s2 (Request name) = (s2, [Resolved name m'])"
    using known s2 by auto
  have second: "loop_step pf s2 (Request name) = (s2, [Resolved name m])"
    if "name \<notin> set (snd s1)
        \<or> (\<forall>answer. Probe_settles name answer \<in> set es
              \<longrightarrow> fst s1 name = Some (probe_entry name answer))"
  proof -
    have "fst s2 name = fst s1 name"
      using that
    proof
      assume "name \<notin> set (snd s1)"
      with assms(3) show ?thesis using start by (intro run_events_quiet) auto
    next
      assume "\<forall>answer. Probe_settles name answer \<in> set es
              \<longrightarrow> fst s1 name = Some (probe_entry name answer)"
      with assms(3) show ?thesis by (rule run_events_entry)
    qed
    then have "resolve_start pf (fst s2) name = Some m"
      using start resolve_start_entry [of "fst s2" name "fst s1" pf] by simp
    then show ?thesis using s2 by simp
  qed
  show ?thesis using first second by blast
qed

theorem resolution_after_completion_witness:
  "run_events sample_platform (Map.empty, []) [Request (lit ''foo-70b''), Request (lit ''foo-70b'')]
     = ((Map.empty, [lit ''foo-70b'', lit ''foo-70b'']),
        [Probe_sent (lit ''foo-70b''), Probe_sent (lit ''foo-70b'')])
   \<and> loop_step sample_platform (Map.empty, [lit ''foo-70b'', lit ''foo-70b''])
        (Probe_settles (lit ''foo-70b'') (Some 404))
     = (([lit ''foo-70b'' \<mapsto> None], [lit ''foo-70b'']),
        [Resolved (lit ''foo-70b'') (Named (lit ''meta/llama-3.1-70b-instruct''))])
   \<and> run_events sample_platform ([lit ''foo-70b'' \<mapsto> None], [lit ''foo-70b''])
        [Probe_settles (lit ''foo-70b'') None]
     = (([lit ''foo-70b'' \<mapsto> None], []),
        [Resolved (lit ''foo-70b'') (Named (lit ''meta/llama-3.1-70b-instruct''))])
   \<and> loop_step sample_platform ([lit ''foo-70b'' \<mapsto> None], []) (Request (lit ''foo-70b''))
     = (([lit ''foo-70b'' \<mapsto> None], []),
        [Resolved (lit ''foo-70b'') (Named (lit ''meta/llama-3.1-70b-instruct''))])"
proof -
  let ?n = "lit ''foo-70b''"
  let ?m = "Named (lit ''meta/llama-3.1-70b-instruct'')"
  have 1: "MODEL_MAPPING_get ?n = None"
    by (simp add: MODEL_MAPPING_get_def MODEL_MAPPING_def object_prototype_members_def lit_def)
  have 2: "fallback sample_platform ?n = lit ''meta/llama-3.1-70b-instruct''"
    by (simp add: fallback_def sample_platform_def ascii_lower_def lit_def)
  have a: "run_events sample_platform (Map.empty, []) [Request ?n, Request ?n]
     = ((Map.empty, [?n, ?n]), [Probe_sent ?n, Probe_sent ?n])"
    by (simp add: resolve_start_def 1)
  have b: "loop_step sample_platform (Map.empty, [?n, ?n]) (Probe_settles ?n (Some 404))
     = (([?n \<mapsto> None], [?n]), [Resolved ?n ?m])"
    by (simp add: resolve_settle_def probe_entry_def probe_verifies_def 2)
  have c: "run_events sample_platform ([?n \<mapsto> None], [?n]) [Probe_settles ?n None]
     = (([?n \<mapsto> None], []), [Resolved ?n ?m])"
    by (simp add: resolve_settle_def probe_entry_def probe_verifies_def 2)
  have d: "\<forall>answer. Probe_settles ?n answer \<in> set [Probe_settles ?n None]
             \<longrightarrow> fst ([?n \<mapsto> None], [?n]) ?n = Some (probe_entry ?n answer)"
    by (simp add: probe_entry_def probe_verifies_def)
  show ?thesis
    using a b c d resolution_after_completion [OF a b c] by simp
qed

section \<open>The upstream request\<close>

lemma nimRequest_fields:
  "nim_messages (nimRequest body nimModel useThinking) = messages body"
  "nim_temperature (nimRequest body nimModel useThinking) =
     (if truthy (temperature body) then the (temperature body) else JNum (85 / 100))"
  "nim_max_tokens (nimRequest body nimModel useThinking) =
     (if truthy (max_tokens body) then the (max_tokens body) else JNum 16384)"
  "nim_stream (nimRequest body nimModel useThinking) =
     (if truthy (stream body) then the (stream body) else JBool False)"
  by (auto simp: nimRequest_def or_else_def split: option.splits)

text \<open>
  C7. A request that carries \<open>temperature: 0\<close> is sent upstream with the temperature
  0.85: the default replaces a value that is present.
\<close>

theorem zero_temperature_replaced:
  "nim_temperature (nimRequest (body\<lparr>temperature := Some (JNum 0)\<rparr>) nimModel useThinking)
     = JNum (85 / 100)"
  by (simp add: nimRequest_def or_else_def)

section \<open>Validation of the messages\<close>

lemma messages_rejected_iff:
  "messages_rejected msgs \<longleftrightarrow> \<not> (\<exists>x xs. msgs = Some (JArr (x # xs)))"
proof (cases msgs)
  case None
  then show ?thesis by (simp add: messages_rejected_def)
next
  case (Some v)
  show ?thesis
  proof (cases v)
    case (JArr xs)
    then show ?thesis using Some by (cases xs) (simp_all add: messages_rejected_def)
  qed (simp_all add: Some messages_rejected_def)
qed

text \<open>
  C8. A request whose \<open>messages\<close> are missing, not an array or an empty array fails as
  invalid, with the cache untouched and no call made upstream, and the failure is sent
  with status 400 and the body \<open>{error: {message, type, code}}\<close>; a request with a
  non-empty array of messages does not fail in this way.
\<close>

theorem invalid_messages_rejected_first:
  "((messages body = None \<or> (\<forall>xs. messages body \<noteq> Some (JArr xs))
      \<or> messages body = Some (JArr []))
     \<longrightarrow> chat_completions pf up now verifiedModels body
           = (Inl Invalid_messages, verifiedModels, [])
       \<and> respond Invalid_messages =
           (400, obj [(''error'', Some (obj
              [(''message'', Some (JStr (0x27 # lit ''messages'' @ 0x27
                    # lit '' is required and must be a non-empty array''))),
               (''type'', Some (JStr (lit ''invalid_request_error''))),
               (''code'', Some (JNum 400))]))]))
   \<and> ((\<exists>x xs. messages body = Some (JArr (x # xs)))
     \<longrightarrow> fst (chat_completions pf up now verifiedModels body) \<noteq> Inl Invalid_messages)"
proof (intro conjI impI)
  assume "messages body = None \<or> (\<forall>xs. messages body \<noteq> Some (JArr xs))
          \<or> messages body = Some (JArr [])"
  then have "messages_rejected (messages body)" by (auto simp: messages_rejected_iff)
  then show "chat_completions pf up now verifiedModels body
             = (Inl Invalid_messages, verifiedModels, [])"
    by (simp add: chat_completions_def)
next
  show "respond Invalid_messages =
           (400, obj [(''error'', Some (obj
              [(''message'', Some (JStr (0x27 # lit ''messages'' @ 0x27
                    # lit '' is required and must be a non-empty array''))),
               (''type'', Some (JStr (lit ''invalid_request_error''))),
               (''code'', Some (JNum 400))]))])"
    by (simp add: error_envelope_def)
next
  assume "\<exists>x xs. messages body = Some (JArr (x # xs))"
  then have "\<not> messages_rejected (messages body)" by (simp add: messages_rejected_iff)
  then show "fst (chat_completions pf up now verifiedModels body) \<noteq> Inl Invalid_messages"
    by (auto simp: chat_completions_def Let_def split: prod.splits sum.splits option.splits)
qed

theorem invalid_messages_rejected_first_witness:
  "messages sample_body_without_messages = None
   \<and> chat_completions sample_platform sample_upstream 0 Map.empty
        sample_body_without_messages = (Inl Invalid_messages, Map.empty, [])
   \<and> fst (respond Invalid_messages) = 400
   \<and> messages sample_body
       = Some (JArr [obj [(''role'', Some (JStr (lit ''user''))),
                          (''content'', Some (JStr (lit ''Hi'')))]])
   \<and> fst (chat_completions sample_platform sample_upstream 0 Map.empty sample_body)
       \<noteq> Inl Invalid_messages"
proof -
  have 1: "messages sample_body_without_messages = None"
    by (simp add: sample_body_without_messages_def)
  have 2: "messages sample_body
       = Some (JArr [obj [(''role'', Some (JStr (lit ''user''))),
                          (''content'', Some (JStr (lit ''Hi'')))]])"
    by (simp add: sample_body_def)
  show ?thesis
    using 1 2
      invalid_messages_rejected_first [of sample_body_without_messages sample_platform
        sample_upstream 0 Map.empty]
      invalid_messages_rejected_first [of sample_body sample_platform sample_upstream 0
        Map.empty]
    by simp
qed

section \<open>Lines and chunks\<close>

lemma split_on_nonempty: "split_on sep s \<noteq> []"
  by (induction s) (auto split: list.splits)

lemma split_on_Cons_other:
  "c \<noteq> sep \<Longrightarrow> split_on sep (c # cs) = (c # hd (split_on sep cs)) # tl (split_on sep cs)"
  using split_on_nonempty [of sep cs] by (cases "split_on sep cs") auto

lemma split_on_line:
  "sep \<notin> set l \<Longrightarrow> split_on sep (l @ sep # rest) = l # split_on sep rest"
  by (induction l) (auto simp: split_on_Cons_other)

lemma split_on_no_sep: "sep \<notin> set l \<Longrightarrow> split_on sep l = [l]"
  by (induction l) (auto simp: split_on_Cons_other)

lemma split_on_append:
  "split_on sep (a @ b) =
     butlast (split_on sep a) @ split_on sep (last (split_on sep a) @ b)"
proof (induction a)
  case Nil
  then show ?case by simp
next
  case (Cons c cs)
  obtain l ls where X: "split_on sep cs = l # ls"
    using split_on_nonempty [of sep cs] by (cases "split_on sep cs") auto
  show ?case
  proof (cases "c = sep")
    case True
    then show ?thesis using Cons.IH X by simp
  next
    case False
    show ?thesis
    proof (cases ls)
      case Nil
      then show ?thesis using Cons.IH X False by (simp add: split_on_Cons_other)
    next
      case (Cons l' ls')
      then show ?thesis using Cons.IH X False by (simp add: split_on_Cons_other)
    qed
  qed
qed

lemma last_split_on_no_sep: "sep \<notin> set (last (split_on sep s))"
proof (induction s)
  case Nil
  then show ?case by simp
next
  case (Cons c cs)
  obtain l ls where X: "split_on sep cs = l # ls"
    using split_on_nonempty [of sep cs] by (cases "split_on sep cs") auto
  show ?case using Cons.IH X by (cases ls) auto
qed

lemma last_split_on_boundary:
  assumes "s = [] \<or> last s = sep"
  shows "last (split_on sep s) = []"
proof (cases s rule: rev_cases)
  case Nil
  then show ?thesis by simp
next
  case (snoc s' c)
  then have c: "c = sep" using assms by simp
  have "split_on sep (s' @ [sep]) =
          butlast (split_on sep s') @ split_on sep (last (split_on sep s') @ [sep])"
    by (rule split_on_append)
  also have "split_on sep (last (split_on sep s') @ [sep]) = [last (split_on sep s'), []]"
    using split_on_line [OF last_split_on_no_sep, of sep s' "[]"] by simp
  finally show ?thesis using snoc c by simp
qed

lemma for_each_line_append:
  "for_each_line pf show started (xs @ ys) =
     (let (written, started') = for_each_line pf show started xs;
          (more, started'') = for_each_line pf show started' ys
      in (written @ more, started''))"
  by (induction xs arbitrary: started) (auto simp: Let_def split: prod.splits)

lemma on_text_append:
  "on_text pf show st (a @ b) =
     (let (written, st') = on_text pf show st a;
          (more, st'') = on_text pf show st' b
      in (written @ more, st''))"
proof -
  let ?A = "split_on LF (buffer st @ a)"
  let ?B = "split_on LF (last ?A @ b)"
  obtain w1 s1 where 1: "for_each_line pf show (reasoningStarted st) (butlast ?A) = (w1, s1)"
    by (cases "for_each_line pf show (reasoningStarted st) (butlast ?A)")
  obtain w2 s2 where 2: "for_each_line pf show s1 (butlast ?B) = (w2, s2)"
    by (cases "for_each_line pf show s1 (butlast ?B)")
  have A: "?A \<noteq> []" and B: "?B \<noteq> []" by (rule split_on_nonempty)+
  have AB: "split_on LF (buffer st @ a @ b) = butlast ?A @ ?B"
    using split_on_append [of LF "buffer st @ a" b] by simp
  have bl: "butlast (butlast ?A @ ?B) = butlast ?A @ butlast ?B"
    using B by (simp add: butlast_append)
  have la: "last (butlast ?A @ ?B) = last ?B" using B by simp
  have first: "on_text pf show st a = (w1, \<lparr>buffer = last ?A, reasoningStarted = s1\<rparr>)"
    using A 1 by (simp add: on_text_def Let_def)
  have second: "on_text pf show \<lparr>buffer = last ?A, reasoningStarted = s1\<rparr> b
                  = (w2, \<lparr>buffer = last ?B, reasoningStarted = s2\<rparr>)"
    using B 2 by (simp add: on_text_def Let_def)
  have whole: "on_text pf show st (a @ b)
                 = (w1 @ w2, \<lparr>buffer = last ?B, reasoningStarted = s2\<rparr>)"
    using B 1 2 by (simp add: on_text_def Let_def AB bl la for_each_line_append)
  show ?thesis by (simp add: first second whole)
qed

lemma on_text_empty:
  "LF \<notin> set (buffer st) \<Longrightarrow> on_text pf show st [] = ([], st)"
  by (simp add: on_text_def split_on_no_sep)

lemma on_text_buffer:
  "LF \<notin> set (buffer (snd (on_text pf show st text)))"
  using last_split_on_no_sep [of LF "buffer st @ text"] split_on_nonempty [of LF "buffer st @ text"]
  by (simp add: on_text_def Let_def split: prod.splits)

lemma feed_as_text:
  "LF \<notin> set (buffer st) \<Longrightarrow>
   feed pf show st chunks = on_text pf show st (concat (map toString chunks))"
proof (induction chunks arbitrary: st)
  case Nil
  then show ?case by (simp add: on_text_empty)
next
  case (Cons c cs)
  obtain w st' where 1: "on_text pf show st (toString c) = (w, st')" by (cases "on_text pf show st (toString c)")
  have "LF \<notin> set (buffer st')" using on_text_buffer [of pf "show" st "toString c"] 1 by simp
  then have "feed pf show st' cs = on_text pf show st' (concat (map toString cs))"
    by (rule Cons.IH)
  then show ?case using 1 by (simp add: on_data_def on_text_append split: prod.splits)
qed

text \<open>
  Feeding chunks is handling the text they decode to, one after the other: only the
  decoded text matters, not where it was cut.
\<close>

lemma feed_same_text:
  assumes "LF \<notin> set (buffer st)"
    and "concat (map toString chunks) = concat (map toString chunks')"
  shows "feed pf show st chunks = feed pf show st chunks'"
  using assms by (simp add: feed_as_text)

lemma toString_ascii: "\<forall>b\<in>set bs. b < 0x80 \<Longrightarrow> toString bs = map ucast bs"
  by (induction bs) auto

text \<open>
  Where decoding the chunks one by one gives the text of decoding them together, feeding
  them one by one is feeding them as one chunk; chunks of ASCII bytes are such.
\<close>

lemma chunks_as_one:
  assumes "LF \<notin> set (buffer st)"
    and "toString (concat chunks) = concat (map toString chunks)"
  shows "feed pf show st chunks = on_data pf show st (concat chunks)"
  using assms by (simp add: feed_as_text on_data_def)

lemma ascii_chunks_as_one:
  assumes "LF \<notin> set (buffer st)" and "\<forall>b\<in>set (concat chunks). b < 0x80"
  shows "feed pf show st chunks = on_data pf show st (concat chunks)"
proof -
  have a: "toString (concat chunks) = map ucast (concat chunks)"
    using assms(2) by (rule toString_ascii)
  have b: "map toString chunks = map (map ucast) chunks"
    using assms(2) by (intro map_cong refl toString_ascii) auto
  have "toString (concat chunks) = concat (map toString chunks)"
    unfolding a b by (simp add: map_concat)
  with assms(1) show ?thesis by (rule chunks_as_one)
qed

section \<open>The termination signal\<close>

text \<open>
  A line with \<open>data:\<close> in front and no \<open>[DONE]\<close> in it whose payload parses is
  handled as the parsed event.
\<close>

lemma on_line_parsed:
  assumes "startsWith (strip_cr rawLine) (lit ''data:'')"
    and "\<not> includes_str (strip_cr rawLine) (lit ''[DONE]'')"
    and "JSON_parse pf (strip_data (strip_cr rawLine)) = Some data"
  shows "on_line pf show started rawLine = on_event pf show started data"
  using assms by (simp add: on_line_def Let_def)

text \<open>Removing the final carriage return keeps a prefix and an occurrence without one.\<close>

lemma strip_cr_startsWith:
  assumes "startsWith l p" and "p \<noteq> []" and "last p \<noteq> CR"
  shows "startsWith (strip_cr l) p"
proof -
  obtain v where l: "l = p @ v" using assms(1) by (auto simp: startsWith_iff)
  show ?thesis
  proof (cases "l \<noteq> [] \<and> last l = CR")
    case False
    then show ?thesis using assms(1) by (auto simp: strip_cr_def)
  next
    case True
    then have "v \<noteq> []" using l assms(2,3) by auto
    then have "butlast l = p @ butlast v" using l by (simp add: butlast_append)
    then show ?thesis using True by (simp add: strip_cr_def startsWith_iff)
  qed
qed

lemma strip_cr_includes:
  assumes "includes_str l p" and "p \<noteq> []" and "last p \<noteq> CR"
  shows "includes_str (strip_cr l) p"
proof -
  obtain u w where l: "l = u @ p @ w" using assms(1) by (auto simp: includes_str_iff)
  show ?thesis
  proof (cases "l \<noteq> [] \<and> last l = CR")
    case False
    then show ?thesis using assms(1) by (auto simp: strip_cr_def)
  next
    case True
    then have "w \<noteq> []" using l assms(2,3) by auto
    then have "butlast l = u @ p @ butlast w" using l assms(2) by (simp add: butlast_append)
    then have "includes_str (butlast l) p" unfolding includes_str_iff by blast
    then show ?thesis using True by (simp add: strip_cr_def)
  qed
qed

text \<open>
  C10. A line that starts with \<open>data:\<close> and has \<open>[DONE]\<close> anywhere in it is taken
  for the termination signal, whatever else it holds: if trace display is on and a
  reasoning section is open, the event \<open>{choices: [{index: 0, delta: {content:
  '</think>\n\n'}}]}\<close> is written first; then \<open>data: [DONE]\<close> is written, the flag
  is reset, and the payload of the line is neither parsed nor forwarded.
\<close>

theorem done_anywhere_terminates:
  assumes "startsWith rawLine (lit ''data:'')"
    and "includes_str rawLine (lit ''[DONE]'')"
  shows "on_line pf show started rawLine =
           ((if show \<and> started
             then [Write_data (JObj [(lit ''choices'', JArr [JObj
                     [(lit ''index'', JNum 0),
                      (lit ''delta'', JObj [(lit ''content'',
                          JStr (lit ''</think>'' @ [0x0A, 0x0A]))])]])])]
             else []) @ [Write_done],
            started \<and> \<not> show)"
proof -
  have 1: "startsWith (strip_cr rawLine) (lit ''data:'')"
    using assms(1) by (rule strip_cr_startsWith) (simp_all add: lit_def CR_def)
  have 2: "includes_str (strip_cr rawLine) (lit ''[DONE]'')"
    using assms(2) by (rule strip_cr_includes) (simp_all add: lit_def CR_def)
  have 3: "done_close = JObj [(lit ''choices'', JArr [JObj
                     [(lit ''index'', JNum 0),
                      (lit ''delta'', JObj [(lit ''content'',
                          JStr (lit ''</think>'' @ [0x0A, 0x0A]))])]])]"
    by (simp add: done_close_def obj_def List.map_filter_simps close_marker_def LF_def)
  show ?thesis using 1 2 by (auto simp: on_line_def Let_def 3)
qed

theorem done_anywhere_terminates_witness:
  \<open>startsWith (lit ''data: {"choices":[{"delta":{"content":"[DONE]"}}]}'') (lit ''data:'')
   \<and> includes_str (lit ''data: {"choices":[{"delta":{"content":"[DONE]"}}]}'') (lit ''[DONE]'')
   \<and> JSON_parse sample_platform (lit ''{"choices":[{"delta":{"content":"[DONE]"}}]}'')
     = Some (JObj [(lit ''choices'', JArr [JObj [(lit ''delta'',
                JObj [(lit ''content'', JStr (lit ''[DONE]''))])]])])
   \<and> on_line sample_platform True True
        (lit ''data: {"choices":[{"delta":{"content":"[DONE]"}}]}'')
     = ([Write_data (JObj [(lit ''choices'', JArr [JObj
                     [(lit ''index'', JNum 0),
                      (lit ''delta'', JObj [(lit ''content'',
                          JStr (lit ''</think>'' @ [0x0A, 0x0A]))])]])]),
         Write_done], False)
   \<and> on_line sample_platform False False
        (lit ''data: {"choices":[{"delta":{"content":"[DONE]"}}]}'' @ [0x0D])
     = ([Write_done], False)\<close>
proof -
  have 1: \<open>startsWith (lit ''data: {"choices":[{"delta":{"content":"[DONE]"}}]}'') (lit ''data:'')\<close>
    by (simp add: lit_def)
  have 2: \<open>includes_str (lit ''data: {"choices":[{"delta":{"content":"[DONE]"}}]}'') (lit ''[DONE]'')\<close>
    by (simp add: lit_def)
  have 3: \<open>JSON_parse sample_platform (lit ''{"choices":[{"delta":{"content":"[DONE]"}}]}'')
     = Some (JObj [(lit ''choices'', JArr [JObj [(lit ''delta'',
                JObj [(lit ''content'', JStr (lit ''[DONE]''))])]])])\<close>
    by (simp add: sample_platform_def sample_parse_def content_payload_def content_event_def
        obj_def List.map_filter_simps lit_def)
  have 4: \<open>startsWith (lit ''data: {"choices":[{"delta":{"content":"[DONE]"}}]}'' @ [0x0D])
             (lit ''data:'')\<close>
    by (simp add: lit_def)
  have 5: \<open>includes_str (lit ''data: {"choices":[{"delta":{"content":"[DONE]"}}]}'' @ [0x0D])
             (lit ''[DONE]'')\<close>
    by (simp add: lit_def)
  show ?thesis
    using 1 2 3 done_anywhere_terminates [OF 1 2, of sample_platform True True]
      done_anywhere_terminates [OF 4 5, of sample_platform False False]
    by simp
qed

section \<open>Lines that do not parse\<close>

text \<open>
  C9, as stated, fails: a line whose payload is not JSON but contains \<open>[DONE]\<close> is
  not dropped; it makes the transformer write the termination signal and, with trace
  display on and a reasoning section open, the closing event, and reset the flag.
\<close>

theorem malformed_done_line_counterexample:
  "startsWith (strip_cr truncated_line) (lit ''data:'')
   \<and> JSON_parse sample_platform (strip_data (strip_cr truncated_line)) = None
   \<and> on_line sample_platform SHOW_REASONING False truncated_line = ([Write_done], False)
   \<and> on_line sample_platform True True truncated_line
       = ([Write_data done_close, Write_done], False)"
  by (simp add: on_line_def truncated_line_def strip_cr_def strip_data_def lit_def CR_def
      sample_platform_def sample_parse_def content_payload_def is_space_def SHOW_REASONING_def)

lemma on_line_dropped:
  assumes "startsWith (strip_cr l) (lit ''data:'')"
    and "\<not> includes_str (strip_cr l) (lit ''[DONE]'')"
    and "JSON_parse pf (strip_data (strip_cr l)) = None"
  shows "on_line pf show started l = ([], started)"
  using assms by (simp add: on_line_def Let_def)

lemma on_text_without_line:
  assumes drop: "\<And>started. on_line pf show started l = ([], started)"
    and "LF \<notin> set l"
    and "buffer st @ before = [] \<or> last (buffer st @ before) = LF"
  shows "on_text pf show st (before @ l @ LF # after) = on_text pf show st (before @ after)"
proof -
  let ?X = "split_on LF (buffer st @ before)"
  have lastX: "last ?X = []" using assms(3) by (rule last_split_on_boundary)
  have with_l: "split_on LF (buffer st @ before @ l @ LF # after)
                  = butlast ?X @ l # split_on LF after"
    using split_on_append [of LF "buffer st @ before" "l @ LF # after"] lastX
      split_on_line [OF assms(2), of after] by simp
  have without: "split_on LF (buffer st @ before @ after) = butlast ?X @ split_on LF after"
    using split_on_append [of LF "buffer st @ before" after] lastX by simp
  have ne: "split_on LF after \<noteq> []" by (rule split_on_nonempty)
  have bl1: "butlast (butlast ?X @ l # split_on LF after)
               = butlast ?X @ l # butlast (split_on LF after)"
    using ne by (simp add: butlast_append)
  have bl2: "butlast (butlast ?X @ split_on LF after)
               = butlast ?X @ butlast (split_on LF after)"
    using ne by (simp add: butlast_append)
  show ?thesis
    using ne by (simp add: on_text_def with_l without bl1 bl2 for_each_line_append drop Let_def
        split: prod.splits)
qed

text \<open>
  C9, amended. A line that starts with \<open>data:\<close>, does not contain \<open>[DONE]\<close> and
  whose payload does not parse is dropped: nothing is written for it and the flag stays
  as it is. The rest of the stream is handled as if the line were not there: the text
  with the line, at a line boundary, gives what the text without it gives, buffer
  included, and so do chunks that decode to the two texts.
\<close>

theorem malformed_line_dropped:
  assumes "startsWith (strip_cr l) (lit ''data:'')"
    and "\<not> includes_str (strip_cr l) (lit ''[DONE]'')"
    and "JSON_parse pf (strip_data (strip_cr l)) = None"
    and "LF \<notin> set l"
    and "buffer st @ before = [] \<or> last (buffer st @ before) = LF"
    and "LF \<notin> set (buffer st)"
    and "concat (map toString chunks) = before @ l @ LF # after"
    and "concat (map toString chunks') = before @ after"
  shows "on_line pf show started l = ([], started)
       \<and> on_text pf show st (before @ l @ LF # after) = on_text pf show st (before @ after)
       \<and> feed pf show st chunks = feed pf show st chunks'"
proof -
  have d: "\<And>started. on_line pf show started l = ([], started)"
    using assms(1-3) by (rule on_line_dropped)
  have t: "on_text pf show st (before @ l @ LF # after) = on_text pf show st (before @ after)"
    using d assms(4,5) by (rule on_text_without_line)
  show ?thesis using d t assms(6-8) by (simp add: feed_as_text)
qed

theorem malformed_line_dropped_witness:
  "startsWith (strip_cr malformed_line) (lit ''data:'')
   \<and> \<not> includes_str (strip_cr malformed_line) (lit ''[DONE]'')
   \<and> JSON_parse sample_platform (strip_data (strip_cr malformed_line)) = None
   \<and> concat (map toString [malformed_chunk, hi_chunk])
       = [] @ malformed_line @ LF # lit ''data: '' @ content_payload (lit ''Hi'') @ [LF]
   \<and> on_line sample_platform SHOW_REASONING False malformed_line = ([], False)
   \<and> feed sample_platform SHOW_REASONING \<lparr>buffer = [], reasoningStarted = False\<rparr>
        [malformed_chunk, hi_chunk]
     = feed sample_platform SHOW_REASONING \<lparr>buffer = [], reasoningStarted = False\<rparr>
        [hi_chunk]"
proof -
  let ?st = "\<lparr>buffer = [], reasoningStarted = False\<rparr>"
  let ?after = "lit ''data: '' @ content_payload (lit ''Hi'') @ [LF]"
  have 1: "startsWith (strip_cr malformed_line) (lit ''data:'')"
    by (simp add: malformed_line_def strip_cr_def lit_def CR_def)
  have 2: "\<not> includes_str (strip_cr malformed_line) (lit ''[DONE]'')"
    by (simp add: malformed_line_def strip_cr_def lit_def CR_def)
  have 3: "JSON_parse sample_platform (strip_data (strip_cr malformed_line)) = None"
    by (simp add: malformed_line_def strip_cr_def strip_data_def lit_def CR_def is_space_def
        sample_platform_def sample_parse_def content_payload_def)
  have 4: "LF \<notin> set malformed_line" by (simp add: malformed_line_def lit_def LF_def)
  have 5: "buffer ?st @ [] = [] \<or> last (buffer ?st @ []) = LF" by simp
  have 6: "LF \<notin> set (buffer ?st)" by simp
  have 7: "concat (map toString [malformed_chunk, hi_chunk]) = [] @ malformed_line @ LF # ?after"
    by (simp add: malformed_chunk_def hi_chunk_def malformed_line_def content_payload_def
        bytes_def lit_def LF_def)
  have 8: "concat (map toString [hi_chunk]) = [] @ ?after"
    by (simp add: hi_chunk_def content_payload_def bytes_def lit_def LF_def)
  show ?thesis
    using malformed_line_dropped [OF 1 2 3 4 5 6 7 8, of SHOW_REASONING False] 1 2 3 7 by simp
qed

section \<open>A character cut in two by the chunk boundary\<close>

lemma toString_head:
  \<open>toString chunk_head = lit ''data: {"choices":[{"delta":{"content":"'' @ [0xFFFD]\<close>
  by (simp add: chunk_head_def bytes_def lit_def)

lemma toString_tail:
  \<open>toString chunk_tail = 0xFFFD # lit ''"}}]}'' @ [LF]\<close>
  by (simp add: chunk_tail_def bytes_def lit_def LF_def is_cont_def)

lemma toString_whole:
  \<open>toString (chunk_head @ chunk_tail) = lit ''data: {"choices":[{"delta":{"content":"'' @ [0xE9] @ lit ''"}}]}'' @ [LF]\<close>
  by (simp add: chunk_head_def chunk_tail_def bytes_def lit_def LF_def is_cont_def cont_bits_def code_units_def)

lemma on_event_content_event:
  "c \<noteq> [] \<Longrightarrow> on_event pf show False (content_event c) = ([Write_data (content_event c)], False)"
  by (simp add: on_event_def content_event_def delta_of_def obj_def List.map_filter_simps Let_def
      if_truthy_def or_else_def set_delta_content_def lit_def)

text \<open>
  C2. The event line whose content is U+00E9 arrives as one chunk, or as two chunks cut
  between the two bytes of the character. Each chunk is decoded by itself, so the two
  halves become two U+FFFD: the event forwarded for the two chunks differs from the one
  forwarded for the single chunk. (\<open>JSON.parse\<close> is assumed to read the two
  payloads, as it does.)
\<close>

theorem split_character_changes_output:
  assumes "JSON_parse pf (content_payload [0xE9]) = Some (content_event [0xE9])"
    and "JSON_parse pf (content_payload [0xFFFD, 0xFFFD]) = Some (content_event [0xFFFD, 0xFFFD])"
  shows "feed pf show \<lparr>buffer = [], reasoningStarted = False\<rparr> [chunk_head @ chunk_tail]
           = ([Write_data (content_event [0xE9])], \<lparr>buffer = [], reasoningStarted = False\<rparr>)
       \<and> feed pf show \<lparr>buffer = [], reasoningStarted = False\<rparr> [chunk_head, chunk_tail]
           = ([Write_data (content_event [0xFFFD, 0xFFFD])],
              \<lparr>buffer = [], reasoningStarted = False\<rparr>)"
proof -
  have e1: "on_event pf show False (content_event [0xE9]) = ([Write_data (content_event [0xE9])], False)"
    by (rule on_event_content_event) simp
  have e2: "on_event pf show False (content_event [0xFFFD, 0xFFFD])
              = ([Write_data (content_event [0xFFFD, 0xFFFD])], False)"
    by (rule on_event_content_event) simp
  have p1: \<open>JSON_parse pf (lit ''{"choices":[{"delta":{"content":"'' @ [0xE9] @ lit ''"}}]}'')
       = Some (content_event [0xE9])\<close>
    using assms(1) by (simp add: content_payload_def)
  have p2: \<open>JSON_parse pf (lit ''{"choices":[{"delta":{"content":"'' @ [0xFFFD, 0xFFFD] @ lit ''"}}]}'')
       = Some (content_event [0xFFFD, 0xFFFD])\<close>
    using assms(2) by (simp add: content_payload_def)
  have l1: \<open>on_line pf show False (lit ''data: {"choices":[{"delta":{"content":"'' @ [0xE9] @ lit ''"}}]}'')
       = ([Write_data (content_event [0xE9])], False)\<close>
    using p1 e1 by (simp add: on_line_def strip_cr_def strip_data_def lit_def CR_def is_space_def)
  have l2: \<open>on_line pf show False (lit ''data: {"choices":[{"delta":{"content":"'' @ [0xFFFD, 0xFFFD] @ lit ''"}}]}'')
       = ([Write_data (content_event [0xFFFD, 0xFFFD])], False)\<close>
    using p2 e2 by (simp add: on_line_def strip_cr_def strip_data_def lit_def CR_def is_space_def)
  have s1: \<open>split_on LF (lit ''data: {"choices":[{"delta":{"content":"'' @ [0xE9] @ lit ''"}}]}'' @ [LF])
             = [lit ''data: {"choices":[{"delta":{"content":"'' @ [0xE9] @ lit ''"}}]}'', []]\<close>
    by (simp add: lit_def LF_def)
  have whole: "feed pf show \<lparr>buffer = [], reasoningStarted = False\<rparr> [chunk_head @ chunk_tail]
           = ([Write_data (content_event [0xE9])], \<lparr>buffer = [], reasoningStarted = False\<rparr>)"
    using l1 s1 by (simp add: on_data_def on_text_def toString_whole)
  have two: "feed pf show \<lparr>buffer = [], reasoningStarted = False\<rparr> [chunk_head, chunk_tail]
           = on_text pf show \<lparr>buffer = [], reasoningStarted = False\<rparr>
               (toString chunk_head @ toString chunk_tail)"
    by (subst feed_as_text) simp_all
  have s2: \<open>split_on LF (lit ''data: {"choices":[{"delta":{"content":"'' @ [0xFFFD, 0xFFFD] @ lit ''"}}]}'' @ [LF])
             = [lit ''data: {"choices":[{"delta":{"content":"'' @ [0xFFFD, 0xFFFD] @ lit ''"}}]}'', []]\<close>
    by (simp add: lit_def LF_def)
  have split: "on_text pf show \<lparr>buffer = [], reasoningStarted = False\<rparr>
               (toString chunk_head @ toString chunk_tail)
            = ([Write_data (content_event [0xFFFD, 0xFFFD])], \<lparr>buffer = [], reasoningStarted = False\<rparr>)"
    using l2 s2 by (simp add: on_text_def toString_head toString_tail)
  show ?thesis using whole two split by simp
qed

theorem split_character_changes_output_witness:
  "feed sample_platform SHOW_REASONING \<lparr>buffer = [], reasoningStarted = False\<rparr>
       [chunk_head @ chunk_tail]
     = ([Write_data (content_event [0xE9])], \<lparr>buffer = [], reasoningStarted = False\<rparr>)
   \<and> feed sample_platform SHOW_REASONING \<lparr>buffer = [], reasoningStarted = False\<rparr>
       [chunk_head, chunk_tail]
     = ([Write_data (content_event [0xFFFD, 0xFFFD])],
        \<lparr>buffer = [], reasoningStarted = False\<rparr>)
   \<and> content_event [0xE9] \<noteq> content_event [0xFFFD, 0xFFFD]"
proof -
  have 1: "JSON_parse sample_platform (content_payload [0xE9]) = Some (content_event [0xE9])"
    by (simp add: sample_platform_def sample_parse_def content_payload_def lit_def)
  have 2: "JSON_parse sample_platform (content_payload [0xFFFD, 0xFFFD])
             = Some (content_event [0xFFFD, 0xFFFD])"
    by (simp add: sample_platform_def sample_parse_def content_payload_def lit_def)
  have 3: "content_event [0xE9] \<noteq> content_event [0xFFFD, 0xFFFD]"
    by (simp add: content_event_def obj_def List.map_filter_simps)
  show ?thesis using split_character_changes_output [OF 1 2, of SHOW_REASONING] 3 by simp
qed

section \<open>The closing marker\<close>

lemma delta_of_object:
  assumes "delta_of data = Some d"
  obtains kvs ch x xkvs where "data = JObj kvs" "map_of kvs (lit ''choices'') = Some ch"
    "opt_first (Some ch) = Some x" "x = JObj xkvs" "map_of xkvs (lit ''delta'') = Some d"
proof -
  from assms obtain kvs where data: "data = JObj kvs"
    by (cases data) (simp_all add: delta_of_def)
  from assms data obtain ch where ch: "map_of kvs (lit ''choices'') = Some ch"
    by (cases "map_of kvs (lit ''choices'')") (simp_all add: delta_of_def)
  from assms data ch obtain x where x: "opt_first (Some ch) = Some x"
    by (cases "opt_first (Some ch)") (simp_all add: delta_of_def)
  from assms data ch x obtain xkvs where xk: "x = JObj xkvs"
    by (cases x) (simp_all add: delta_of_def)
  from assms data ch x xk have "map_of xkvs (lit ''delta'') = Some d"
    by (simp add: delta_of_def)
  with data ch x xk show ?thesis by (rule that)
qed

lemma opt_first_update_first:
  assumes "opt_first (Some ch) = Some x"
  shows "opt_first (Some (update_first f ch)) = Some (f x) \<or> (\<exists>c. x = JStr c)"
  using assms by (cases "Some ch" rule: opt_first.cases) (auto simp: update_conv')

lemma delta_of_set_delta_content:
  assumes "delta_of data = Some (JObj d)"
  shows "delta_of (set_delta_content data v)
           = Some (JObj (AList.delete (lit ''reasoning_content'')
                           (AList.update (lit ''content'') v d)))"
proof -
  from assms obtain kvs ch x xkvs where
    data: "data = JObj kvs" and ch: "map_of kvs (lit ''choices'') = Some ch"
    and x: "opt_first (Some ch) = Some x" and xk: "x = JObj xkvs"
    and d: "map_of xkvs (lit ''delta'') = Some (JObj d)"
    by (rule delta_of_object)
  let ?f = "update_field (lit ''delta'') (assign_content v)"
  have "opt_first (Some (update_first ?f ch)) = Some (?f x)"
    using opt_first_update_first [OF x, of ?f] xk by simp
  then show ?thesis
    using data ch xk d by (simp add: delta_of_def set_delta_content_def update_conv')
qed

lemma delta_fields_after:
  "map_of (AList.delete (lit ''reasoning_content'') (AList.update (lit ''content'') v d))
     (lit ''reasoning_content'') = None"
  "map_of (AList.delete (lit ''reasoning_content'') (AList.update (lit ''content'') v d))
     (lit ''content'') = Some v"
  by (simp_all add: delete_conv' update_conv' lit_def)



lemma delta_close_spelled:
  "delta_close data =
     JObj ((case field (lit ''id'') data of None \<Rightarrow> [] | Some v \<Rightarrow> [(lit ''id'', v)])
           @ (case field (lit ''object'') data of None \<Rightarrow> [] | Some v \<Rightarrow> [(lit ''object'', v)])
           @ [(lit ''choices'', JArr [JObj
                [(lit ''index'', JNum 0),
                 (lit ''delta'', JObj [(lit ''content'', JStr (lit ''</think>'' @ [0x0A, 0x0A]))]),
                 (lit ''finish_reason'', JNull)]])])"
  by (cases "field (lit ''id'') data"; cases "field (lit ''object'') data")
     (simp_all add: delta_close_def obj_def List.map_filter_simps close_marker_def LF_def)



section \<open>The forwarded payload\<close>

text \<open>
  C3, as stated, fails: an event that parses and has no delta in its first choice is
  forwarded as it is, without a content field; and only the first choice is rewritten,
  so the reasoning of a second choice is forwarded.
\<close>

theorem forwarded_without_content_counterexample:
  "on_event sample_platform SHOW_REASONING False no_choices = ([Write_data no_choices], False)
   \<and> on_event sample_platform True False no_choices = ([Write_data no_choices], False)
   \<and> no_choices = JObj [(lit ''choices'', JArr [])]
   \<and> on_event sample_platform SHOW_REASONING False two_choices
       = ([Write_data two_choices], False)
   \<and> two_choices = JObj [(lit ''choices'', JArr
       [JObj [(lit ''index'', JNum 0), (lit ''delta'', JObj [(lit ''content'', JStr (lit ''a''))])],
        JObj [(lit ''index'', JNum 1),
              (lit ''delta'', JObj [(lit ''reasoning_content'', JStr (lit ''b''))])]])]"
  by (simp add: on_event_def no_choices_def two_choices_def delta_of_def obj_def
      List.map_filter_simps Let_def if_truthy_def or_else_def set_delta_content_def lit_def
      SHOW_REASONING_def)

text \<open>What is written for an event whose first choice has an object as delta.\<close>

lemma object_delta_shape:
  assumes "delta_of data = Some (JObj d)"
  shows "\<exists>closing forwarded.
           fst (on_event pf show started data) = closing @ map Write_data forwarded
         \<and> (closing = [] \<or> (show \<and> closing = [Write_data (delta_close data)]))
         \<and> length forwarded \<le> 1
         \<and> (\<not> show \<or> (\<not> truthy (map_of d (lit ''reasoning_content''))
                        \<and> \<not> truthy (map_of d (lit ''content'')))
              \<longrightarrow> length forwarded = 1)
         \<and> (\<forall>payload\<in>set forwarded. \<exists>d' v.
               delta_of payload = Some (JObj d')
             \<and> map_of d' (lit ''reasoning_content'') = None
             \<and> map_of d' (lit ''content'') = Some v
             \<and> (\<not> truthy (map_of d (lit ''reasoning_content''))
                 \<and> \<not> truthy (map_of d (lit ''content'')) \<longrightarrow> v = JStr []))"
proof -
  have ok: "\<And>v. \<exists>d' v'. delta_of (set_delta_content data v) = Some (JObj d')
             \<and> map_of d' (lit ''reasoning_content'') = None
             \<and> map_of d' (lit ''content'') = Some v' \<and> v' = v"
    using delta_of_set_delta_content [OF assms] by (simp add: delta_fields_after)
  have nn: "data \<noteq> JNull" using assms by (auto simp: delta_of_def)
  let ?r = "map_of d (lit ''reasoning_content'')"
  let ?c = "map_of d (lit ''content'')"
  show ?thesis
  proof (cases "show")
    case False
    have "fst (on_event pf show started data)
            = [] @ map Write_data [set_delta_content data (or_else ?c (JStr []))]"
      using False nn assms by (simp add: on_event_def Let_def)
    moreover have "\<not> truthy ?c \<longrightarrow> or_else ?c (JStr []) = JStr []"
      by (simp add: or_else_def split: option.splits)
    ultimately show ?thesis using ok [of "or_else ?c (JStr [])"] False
      by (intro exI [of _ "[]"] exI [of _ "[set_delta_content data (or_else ?c (JStr []))]"]) auto
  next
    case True
    let ?closing = "if started \<and> \<not> truthy ?r \<and> truthy ?c
                    then [Write_data (delta_close data)] else []"
    have shape: "(\<exists>v. fst (on_event pf show started data)
                        = ?closing @ map Write_data [set_delta_content data v]
                   \<and> (\<not> truthy ?r \<and> \<not> truthy ?c \<longrightarrow> v = JStr []))
               \<or> (fst (on_event pf show started data) = ?closing @ map Write_data []
                   \<and> (truthy ?r \<or> truthy ?c))"
      using True nn assms
      by (auto simp: on_event_def Let_def if_truthy_def split: option.splits)
    then show ?thesis
    proof
      assume "\<exists>v. fst (on_event pf show started data)
                        = ?closing @ map Write_data [set_delta_content data v]
                   \<and> (\<not> truthy ?r \<and> \<not> truthy ?c \<longrightarrow> v = JStr [])"
      then obtain v where v: "fst (on_event pf show started data)
                        = ?closing @ map Write_data [set_delta_content data v]"
        and e: "\<not> truthy ?r \<and> \<not> truthy ?c \<longrightarrow> v = JStr []" by blast
      show ?thesis using v e ok [of v] True
        by (intro exI [of _ ?closing] exI [of _ "[set_delta_content data v]"]) auto
    next
      assume "fst (on_event pf show started data) = ?closing @ map Write_data []
                   \<and> (truthy ?r \<or> truthy ?c)"
      then show ?thesis using True
        by (intro exI [of _ ?closing] exI [of _ "[]"]) auto
    qed
  qed
qed

lemma no_delta_forwarded:
  "data \<noteq> JNull \<Longrightarrow> \<not> truthy (delta_of data)
   \<Longrightarrow> on_event pf show started data = ([Write_data data], started)"
  by (simp add: on_event_def Let_def)

text \<open>
  C3, amended. For a parsed event whose first choice has an object as delta, in both
  modes: what is written is at most the closing event followed by at most one forwarded
  payload, exactly one when trace display is off or when neither the reasoning nor the
  content of the delta is true in a condition; in a forwarded payload the delta of the
  first choice has no \<open>reasoning_content\<close> and has a \<open>content\<close>, which is the empty
  string when neither the reasoning nor the content was true in a condition. A parsed
  event other than \<open>null\<close> whose first choice has no delta that is true in a condition
  is forwarded unchanged.
\<close>

theorem object_delta_forwarded:
  "(\<forall>d. delta_of data = Some (JObj d) \<longrightarrow>
      (\<exists>closing forwarded.
           fst (on_event pf show started data) = closing @ map Write_data forwarded
         \<and> (closing = []
             \<or> (show \<and> closing =
                  [Write_data (JObj
                     ((case field (lit ''id'') data of
                         None \<Rightarrow> [] | Some v \<Rightarrow> [(lit ''id'', v)])
                      @ (case field (lit ''object'') data of
                           None \<Rightarrow> [] | Some v \<Rightarrow> [(lit ''object'', v)])
                      @ [(lit ''choices'', JArr [JObj
                           [(lit ''index'', JNum 0),
                            (lit ''delta'',
                             JObj [(lit ''content'', JStr (lit ''</think>'' @ [0x0A, 0x0A]))]),
                            (lit ''finish_reason'', JNull)]])]))]))
         \<and> length forwarded \<le> 1
         \<and> (\<not> show \<or> (\<not> truthy (map_of d (lit ''reasoning_content''))
                        \<and> \<not> truthy (map_of d (lit ''content'')))
              \<longrightarrow> length forwarded = 1)
         \<and> (\<forall>payload\<in>set forwarded. \<exists>d' v.
               delta_of payload = Some (JObj d')
             \<and> map_of d' (lit ''reasoning_content'') = None
             \<and> map_of d' (lit ''content'') = Some v
             \<and> (\<not> truthy (map_of d (lit ''reasoning_content''))
                 \<and> \<not> truthy (map_of d (lit ''content'')) \<longrightarrow> v = JStr []))))
   \<and> (data \<noteq> JNull \<and> \<not> truthy (delta_of data)
        \<longrightarrow> on_event pf show started data = ([Write_data data], started))"
proof (intro conjI allI impI)
  fix d
  assume "delta_of data = Some (JObj d)"
  then show "\<exists>closing forwarded.
           fst (on_event pf show started data) = closing @ map Write_data forwarded
         \<and> (closing = []
             \<or> (show \<and> closing =
                  [Write_data (JObj
                     ((case field (lit ''id'') data of
                         None \<Rightarrow> [] | Some v \<Rightarrow> [(lit ''id'', v)])
                      @ (case field (lit ''object'') data of
                           None \<Rightarrow> [] | Some v \<Rightarrow> [(lit ''object'', v)])
                      @ [(lit ''choices'', JArr [JObj
                           [(lit ''index'', JNum 0),
                            (lit ''delta'',
                             JObj [(lit ''content'', JStr (lit ''</think>'' @ [0x0A, 0x0A]))]),
                            (lit ''finish_reason'', JNull)]])]))]))
         \<and> length forwarded \<le> 1
         \<and> (\<not> show \<or> (\<not> truthy (map_of d (lit ''reasoning_content''))
                        \<and> \<not> truthy (map_of d (lit ''content'')))
              \<longrightarrow> length forwarded = 1)
         \<and> (\<forall>payload\<in>set forwarded. \<exists>d' v.
               delta_of payload = Some (JObj d')
             \<and> map_of d' (lit ''reasoning_content'') = None
             \<and> map_of d' (lit ''content'') = Some v
             \<and> (\<not> truthy (map_of d (lit ''reasoning_content''))
                 \<and> \<not> truthy (map_of d (lit ''content'')) \<longrightarrow> v = JStr []))"
    using object_delta_shape [of data d pf "show" started]
    by (simp only: delta_close_spelled)
next
  assume "data \<noteq> JNull \<and> \<not> truthy (delta_of data)"
  then show "on_event pf show started data = ([Write_data data], started)"
    by (simp add: no_delta_forwarded)
qed

theorem object_delta_forwarded_witness:
  "delta_of (JObj [(lit ''choices'', JArr [JObj
       [(lit ''delta'', JObj [(lit ''reasoning_content'', JStr (lit ''a''))])]])])
     = Some (JObj [(lit ''reasoning_content'', JStr (lit ''a''))])
   \<and> fst (on_event sample_platform SHOW_REASONING False
        (JObj [(lit ''choices'', JArr [JObj
           [(lit ''delta'', JObj [(lit ''reasoning_content'', JStr (lit ''a''))])]])]))
       = [Write_data (JObj [(lit ''choices'', JArr [JObj
           [(lit ''delta'', JObj [(lit ''content'', JStr [])])]])])]
   \<and> (\<exists>closing forwarded.
         fst (on_event sample_platform SHOW_REASONING False
            (JObj [(lit ''choices'', JArr [JObj
               [(lit ''delta'', JObj [(lit ''reasoning_content'', JStr (lit ''a''))])]])]))
           = closing @ map Write_data forwarded
       \<and> length forwarded = 1)
   \<and> JObj [(lit ''choices'', JArr [])] \<noteq> JNull
   \<and> \<not> truthy (delta_of (JObj [(lit ''choices'', JArr [])]))
   \<and> on_event sample_platform SHOW_REASONING False (JObj [(lit ''choices'', JArr [])])
       = ([Write_data (JObj [(lit ''choices'', JArr [])])], False)"
proof -
  let ?data = "JObj [(lit ''choices'', JArr [JObj
       [(lit ''delta'', JObj [(lit ''reasoning_content'', JStr (lit ''a''))])]])]"
  have 1: "delta_of ?data = Some (JObj [(lit ''reasoning_content'', JStr (lit ''a''))])"
    by (simp add: delta_of_def lit_def)
  have 2: "fst (on_event sample_platform SHOW_REASONING False ?data)
       = [Write_data (JObj [(lit ''choices'', JArr [JObj
           [(lit ''delta'', JObj [(lit ''content'', JStr [])])]])])]"
    by (simp add: on_event_def delta_of_def Let_def if_truthy_def or_else_def
        set_delta_content_def lit_def SHOW_REASONING_def)
  have 3: "\<not> SHOW_REASONING" by (simp add: SHOW_REASONING_def)
  have 4: "\<not> truthy (delta_of (JObj [(lit ''choices'', JArr [])]))"
    by (simp add: delta_of_def lit_def)
  from object_delta_forwarded [of ?data sample_platform SHOW_REASONING False] 1 3
  have 5: "\<exists>closing forwarded.
         fst (on_event sample_platform SHOW_REASONING False ?data)
           = closing @ map Write_data forwarded
       \<and> length forwarded = 1"
    by blast
  from object_delta_forwarded [of "JObj [(lit ''choices'', JArr [])]" sample_platform SHOW_REASONING False] 4
  have 6: "on_event sample_platform SHOW_REASONING False (JObj [(lit ''choices'', JArr [])])
       = ([Write_data (JObj [(lit ''choices'', JArr [])])], False)"
    by simp
  show ?thesis using 1 2 4 5 6 by simp
qed

section \<open>Reasoning inside the content of a complete response\<close>

lemma split_first_here:
  assumes "p \<noteq> []"
  shows "split_first p (p @ y) = Some ([], y)"
proof -
  obtain a q where p: "p = a # q" using assms by (cases p) auto
  have "startsWith (a # q @ y) (a # q)" by (simp add: startsWith_iff)
  then show ?thesis by (simp add: p)
qed

lemma not_startsWith_overlap:
  assumes "p \<noteq> []" and "hd p \<notin> set (tl p)" and "\<not> startsWith (c # cs) p"
  shows "\<not> startsWith (c # cs @ p @ y) p"
proof
  assume "startsWith (c # cs @ p @ y) p"
  then obtain v where v: "(c # cs) @ p @ y = p @ v" by (auto simp: startsWith_iff)
  then have "\<exists>us. (c # cs = p @ us \<and> us @ (p @ y) = v)
                 \<or> ((c # cs) @ us = p \<and> p @ y = us @ v)"
    by (rule iffD1 [OF append_eq_append_conv2])
  then obtain us where
    "(c # cs = p @ us \<and> us @ (p @ y) = v) \<or> ((c # cs) @ us = p \<and> p @ y = us @ v)" ..
  then show False
  proof
    assume "c # cs = p @ us \<and> us @ (p @ y) = v"
    then have "startsWith (c # cs) p" by (auto simp: startsWith_iff)
    with assms(3) show False by simp
  next
    assume b: "(c # cs) @ us = p \<and> p @ y = us @ v"
    show False
    proof (cases us)
      case Nil
      with b have "startsWith (c # cs) p" by (auto simp: startsWith_iff)
      with assms(3) show False by simp
    next
      case (Cons u us')
      with b have "hd p = u" using assms(1) by (cases p) auto
      moreover from b Cons have "u \<in> set (tl p)" by auto
      ultimately show False using assms(2) by simp
    qed
  qed
qed

lemma split_first_unique:
  assumes "p \<noteq> []" and "hd p \<notin> set (tl p)" and "\<not> includes_str x p"
  shows "split_first p (x @ p @ y) = Some (x, y)"
  using assms(3)
proof (induction x)
  case Nil
  show ?case using split_first_here [OF assms(1)] by simp
next
  case (Cons c cs)
  then have a: "\<not> startsWith (c # cs) p" and b: "\<not> includes_str cs p" by auto
  have "\<not> startsWith (c # cs @ p @ y) p"
    using assms(1,2) a by (rule not_startsWith_overlap)
  then show ?case using Cons.IH [OF b] by simp
qed

lemma trim_dropWhile: "trim (dropWhile is_space s) = trim s"
  by (simp add: trim_def)

lemma think_match_bracketed:
  assumes "\<not> includes_str x (lit ''</think>'')"
  shows "think_match (lit ''<think>'' @ x @ lit ''</think>'' @ y)
           = Some (x, dropWhile is_space y)"
proof -
  have "split_first (lit ''</think>'') (x @ lit ''</think>'' @ y) = Some (x, y)"
    using _ _ assms by (rule split_first_unique) (simp_all add: lit_def)
  moreover have "startsWith (lit ''<think>'' @ x @ lit ''</think>'' @ y) (lit ''<think>'')"
    by (simp add: startsWith_iff)
  moreover have "drop 7 (lit ''<think>'' @ x @ lit ''</think>'' @ y) = x @ lit ''</think>'' @ y"
    by (simp add: lit_def)
  ultimately show ?thesis by (simp add: think_match_def)
qed

text \<open>
  C4. The model not being thinking-eligible and the reasoning field empty, a content
  \<open><think>x</think>y\<close>, where \<open>x\<close> has no closing tag in it, is taken apart: with trace
  display off the content becomes \<open>y\<close> trimmed, with trace display on the trimmed
  \<open>x\<close> between the markers followed by the trimmed \<open>y\<close>. The witness is the content
  \<open>"<think>\nX\n</think>\n\nY"\<close>, which becomes \<open>"Y"\<close>.
\<close>

theorem inline_think_extracted:
  assumes "\<not> useThinking"
    and "field (lit ''message'') choice = Some (JObj m)"
    and "map_of m (lit ''content'') = Some (JStr (lit ''<think>'' @ x @ lit ''</think>'' @ y))"
    and "\<not> truthy (map_of m (lit ''reasoning_content''))"
    and "\<not> includes_str x (lit ''</think>'')"
  shows "map_choice pf show useThinking choice =
           Some (obj [(''index'', field (lit ''index'') choice),
                      (''message'', Some (obj
                         [(''role'', map_of m (lit ''role'')),
                          (''content'', Some (JStr
                             (if show
                              then lit ''<think>'' @ LF # trim x @ LF # lit ''</think>''
                                   @ LF # LF # trim y
                              else trim y)))])),
                      (''finish_reason'', field (lit ''finish_reason'') choice)])"
proof -
  let ?full = "lit ''<think>'' @ x @ lit ''</think>'' @ y"
  have nn: "choice \<noteq> JNull" using assms(2) by auto
  have ne: "?full \<noteq> []" by (simp add: lit_def)
  have content: "or_else (map_of m (lit ''content'')) (JStr []) = JStr ?full"
    using assms(3) ne by (simp add: or_else_def)
  have reasoning: "or_else (map_of m (lit ''reasoning_content'')) (JStr []) = JStr []"
    using assms(4) by (auto simp: or_else_def split: option.splits)
  have "\<exists>u v. ?full = u @ lit ''<think>'' @ v"
    by (rule exI [of _ "[]"]) simp
  then have inc: "includes_str ?full (lit ''<think>'')"
    by (simp only: includes_str_iff)
  have tm: "think_match ?full = Some (x, dropWhile is_space y)"
    using assms(5) by (rule think_match_bracketed)
  show ?thesis
    using nn assms(1,2)
    by (simp add: map_choice_def Let_def content reasoning inc tm trim_dropWhile
        choice_result_def open_marker_def close_marker_def)
qed

theorem inline_think_extracted_witness:
  "field (lit ''message'') inline_think_choice
     = Some (JObj [(lit ''role'', JStr (lit ''assistant'')),
                   (lit ''content'', JStr (lit ''<think>'' @ (LF # lit ''X'' @ [LF])
                                           @ lit ''</think>'' @ (LF # LF # lit ''Y'')))])
   \<and> \<not> includes_str (LF # lit ''X'' @ [LF]) (lit ''</think>'')
   \<and> map_choice sample_platform SHOW_REASONING False inline_think_choice
     = Some (obj [(''index'', Some (JNum 0)),
                  (''message'', Some (obj [(''role'', Some (JStr (lit ''assistant''))),
                                           (''content'', Some (JStr (lit ''Y'')))])),
                  (''finish_reason'', Some (JStr (lit ''stop'')))])"
proof -
  let ?m = "[(lit ''role'', JStr (lit ''assistant'')),
             (lit ''content'', JStr (lit ''<think>'' @ (LF # lit ''X'' @ [LF])
                                     @ lit ''</think>'' @ (LF # LF # lit ''Y'')))]"
  have 1: "field (lit ''message'') inline_think_choice = Some (JObj ?m)"
    by (simp add: inline_think_choice_def obj_def List.map_filter_simps lit_def)
  have 2: "map_of ?m (lit ''content'')
             = Some (JStr (lit ''<think>'' @ (LF # lit ''X'' @ [LF])
                           @ lit ''</think>'' @ (LF # LF # lit ''Y'')))"
    by (simp add: lit_def)
  have 3: "\<not> truthy (map_of ?m (lit ''reasoning_content''))" by (simp add: lit_def)
  have 4: "\<not> includes_str (LF # lit ''X'' @ [LF]) (lit ''</think>'')"
    by (simp add: lit_def LF_def)
  have 5: "trim (LF # LF # lit ''Y'') = lit ''Y''"
    by (simp add: trim_def lit_def LF_def is_space_def)
  have 6: "field (lit ''index'') inline_think_choice = Some (JNum 0)"
    "field (lit ''finish_reason'') inline_think_choice = Some (JStr (lit ''stop''))"
    by (simp_all add: inline_think_choice_def obj_def List.map_filter_simps lit_def)
  have 7: "map_of ?m (lit ''role'') = Some (JStr (lit ''assistant''))" by (simp add: lit_def)
  have 8: "\<not> SHOW_REASONING" by (simp add: SHOW_REASONING_def)
  show ?thesis
    using inline_think_extracted [of False inline_think_choice ?m "LF # lit ''X'' @ [LF]" "LF # LF # lit ''Y''"
        sample_platform SHOW_REASONING, OF _ 1 2 3 4] 1 4 5 6 7 8
    by simp
qed

end
